theory Spec2Isabelle
  imports Complex_Main "HOL-Library.Word" "HOL-Library.Char_ord" "HOL-Library.List_Lexorder"
begin

unbundle bit_operations_syntax

chapter \<open>The model\<close>

section \<open>Errors and strings\<close>

text \<open>
  The exceptions the modelled functions can raise. \<open>SecurityError\<close> and \<open>FetchError\<close> are
  classes of \<^verbatim>\<open>utils/errors\<close>; the message of the first is kept as the template that built it.
  \<open>RangeError\<close> and \<open>TypeError\<close> are raised by the JavaScript runtime
  (\<^verbatim>\<open>new Array(-1)\<close>, \<^verbatim>\<open>new URL(bad)\<close>).
\<close>

datatype security_reason =
    DnsResolutionFailed string
  | ResolvesToPrivateIP string string

datatype error =
    RangeError
  | TypeError
  | SecurityError security_reason
  | FetchError string

text \<open>
  Addresses, host names and URLs are ASCII text and are modelled as \<open>string\<close>.
  The helpers below are the string methods of the runtime that the source calls.
\<close>

definition is_upper_ascii :: "char \<Rightarrow> bool" where
  "is_upper_ascii c = (65 \<le> (of_char c :: nat) \<and> (of_char c :: nat) \<le> 90)"

definition lower_char :: "char \<Rightarrow> char" where
  "lower_char c = (if is_upper_ascii c then char_of (of_char c + (32::nat)) else c)"

definition toLowerCase :: "string \<Rightarrow> string" where
  "toLowerCase s = map lower_char s"

text \<open>\<^verbatim>\<open>s.split(sep)\<close> for a non-empty separator: every occurrence, left to right.\<close>

function js_split :: "string \<Rightarrow> string \<Rightarrow> string list" where
  "js_split sep [] = [[]]"
| "js_split sep (x # xs) =
     (if sep \<noteq> [] \<and> take (length sep) (x # xs) = sep
      then [] # js_split sep (drop (length sep) (x # xs))
      else (let r = js_split sep xs in (x # hd r) # tl r))"
  by pat_completeness auto
termination
  by (relation "measure (\<lambda>(sep, s). length s)") auto

text \<open>\<^verbatim>\<open>parts.join(sep)\<close>.\<close>

fun js_join :: "string \<Rightarrow> string list \<Rightarrow> string" where
  "js_join sep [] = []"
| "js_join sep [x] = x"
| "js_join sep (x # y # ys) = x @ sep @ js_join sep (y # ys)"

definition padStart4 :: "string \<Rightarrow> string" where
  "padStart4 g = replicate (4 - length g) CHR ''0'' @ g"

definition startsWith :: "string \<Rightarrow> string \<Rightarrow> bool" where
  "startsWith s p = (take (length p) s = p)"

text \<open>Reading an array past its end gives \<^verbatim>\<open>undefined\<close>.\<close>

definition nth_opt :: "'a list \<Rightarrow> nat \<Rightarrow> 'a option" where
  "nth_opt xs i = (if i < length xs then Some (xs ! i) else None)"

subsection \<open>parseInt and number formatting\<close>

definition is_space :: "char \<Rightarrow> bool" where
  "is_space c = ((of_char c :: nat) \<in> {9, 10, 11, 12, 13, 32})"

definition digit_val :: "char \<Rightarrow> nat option" where
  "digit_val c =
     (let n = (of_char c :: nat) in
      if 48 \<le> n \<and> n \<le> 57 then Some (n - 48)
      else if 97 \<le> n \<and> n \<le> 122 then Some (n - 87)
      else if 65 \<le> n \<and> n \<le> 90 then Some (n - 55)
      else None)"

definition is_digit_in :: "nat \<Rightarrow> char \<Rightarrow> bool" where
  "is_digit_in radix c = (case digit_val c of None \<Rightarrow> False | Some d \<Rightarrow> d < radix)"

definition digits_value :: "nat \<Rightarrow> string \<Rightarrow> int" where
  "digits_value radix ds = foldl (\<lambda>acc c. acc * int radix + int (the (digit_val c))) 0 ds"

definition strip_hex_prefix :: "nat \<Rightarrow> string \<Rightarrow> string" where
  "strip_hex_prefix radix s =
     (if radix = 16 \<and> (take 2 s = ''0x'' \<or> take 2 s = ''0X'') then drop 2 s else s)"

text \<open>
  \<^verbatim>\<open>parseInt(s, radix)\<close>: leading white space, an optional sign, for radix 16 an
  optional \<^verbatim>\<open>0x\<close>, then the longest run of digits; \<open>None\<close> is \<^verbatim>\<open>NaN\<close>.
  Numbers are kept as \<open>int\<close>; the value is exact (the runtime rounds above
  \<open>2^53\<close>, far beyond an address group or a port).
  \<^verbatim>\<open>parseInt(undefined, radix)\<close> is \<^verbatim>\<open>NaN\<close>.
\<close>

definition parseInt :: "nat \<Rightarrow> string \<Rightarrow> int option" where
  "parseInt radix s =
     (let t = dropWhile is_space s;
          neg = (take 1 t = ''-'');
          u = (if take 1 t = ''-'' \<or> take 1 t = ''+'' then drop 1 t else t);
          ds = takeWhile (is_digit_in radix) (strip_hex_prefix radix u)
      in if ds = [] then None
         else Some (if neg then - digits_value radix ds else digits_value radix ds))"

definition parseInt_opt :: "nat \<Rightarrow> string option \<Rightarrow> int option" where
  "parseInt_opt radix s = (case s of None \<Rightarrow> None | Some t \<Rightarrow> parseInt radix t)"

text \<open>
  The bitwise operators work on 32-bit two's complement integers, kept here as \<open>int\<close>
  with the wrap-around written out: \<^verbatim>\<open>ToInt32\<close> (\<^verbatim>\<open>NaN\<close> becomes 0),
  \<^verbatim>\<open>x << k\<close>, \<^verbatim>\<open>x >> k\<close> and \<^verbatim>\<open>x >>> 0\<close>. \<^verbatim>\<open>|\<close> and \<^verbatim>\<open>&\<close> are \<open>OR\<close> and
  \<open>AND\<close> of \<open>int\<close>, which keep the 32-bit range.
\<close>

definition toInt32 :: "int option \<Rightarrow> int" where
  "toInt32 v = (case v of None \<Rightarrow> 0 | Some n \<Rightarrow> signed_take_bit 31 n)"

definition shl32 :: "int \<Rightarrow> nat \<Rightarrow> int" where
  "shl32 x k = signed_take_bit 31 (push_bit k x)"

definition sar32 :: "int \<Rightarrow> nat \<Rightarrow> int" where
  "sar32 x k = drop_bit k x"

definition toUint32 :: "int \<Rightarrow> int" where
  "toUint32 x = take_bit 32 x"

definition digit_char :: "nat \<Rightarrow> char" where
  "digit_char d = char_of (48 + d)"

function dec_digits :: "int \<Rightarrow> string" where
  "dec_digits n =
     (if n < 10 then [digit_char (nat n)]
      else dec_digits (n div 10) @ [digit_char (nat (n mod 10))])"
  by pat_completeness auto
termination
  by (relation "measure nat") auto

declare dec_digits.simps [simp del]

text \<open>A number in a template literal.\<close>

definition int_to_string :: "int \<Rightarrow> string" where
  "int_to_string i = (if i < 0 then CHR ''-'' # dec_digits (- i) else dec_digits i)"

section \<open>Network security gate (utils/network)\<close>

record IPv4Range =
  label :: string
  range_start :: int
  range_end :: int

definition ipv4ToInt :: "string \<Rightarrow> int" where
  "ipv4ToInt ip =
     (let parts = js_split ''.'' ip in
      toUint32 (shl32 (toInt32 (parseInt_opt 10 (nth_opt parts 0))) 24
                OR shl32 (toInt32 (parseInt_opt 10 (nth_opt parts 1))) 16
                OR shl32 (toInt32 (parseInt_opt 10 (nth_opt parts 2))) 8
                OR toInt32 (parseInt_opt 10 (nth_opt parts 3))))"

definition IPV4_PRIVATE_RANGES :: "IPv4Range list" where
  "IPV4_PRIVATE_RANGES =
    [\<lparr>label = ''Loopback (127.0.0.0/8)'',
       range_start = ipv4ToInt ''127.0.0.0'', range_end = ipv4ToInt ''127.255.255.255''\<rparr>,
     \<lparr>label = ''Private Class A (10.0.0.0/8)'',
       range_start = ipv4ToInt ''10.0.0.0'', range_end = ipv4ToInt ''10.255.255.255''\<rparr>,
     \<lparr>label = ''Private Class B (172.16.0.0/12)'',
       range_start = ipv4ToInt ''172.16.0.0'', range_end = ipv4ToInt ''172.31.255.255''\<rparr>,
     \<lparr>label = ''Private Class C (192.168.0.0/16)'',
       range_start = ipv4ToInt ''192.168.0.0'', range_end = ipv4ToInt ''192.168.255.255''\<rparr>,
     \<lparr>label = ''Link-Local (169.254.0.0/16)'',
       range_start = ipv4ToInt ''169.254.0.0'', range_end = ipv4ToInt ''169.254.255.255''\<rparr>,
     \<lparr>label = ''This Network (0.0.0.0/8)'',
       range_start = ipv4ToInt ''0.0.0.0'', range_end = ipv4ToInt ''0.255.255.255''\<rparr>,
     \<lparr>label = ''CGNAT (100.64.0.0/10)'',
       range_start = ipv4ToInt ''100.64.0.0'', range_end = ipv4ToInt ''100.127.255.255''\<rparr>,
     \<lparr>label = ''IETF Protocol Assignments (192.0.0.0/24)'',
       range_start = ipv4ToInt ''192.0.0.0'', range_end = ipv4ToInt ''192.0.0.255''\<rparr>,
     \<lparr>label = ''Benchmarking (198.18.0.0/15)'',
       range_start = ipv4ToInt ''198.18.0.0'', range_end = ipv4ToInt ''198.19.255.255''\<rparr>]"

text \<open>The \<^verbatim>\<open>for (const range of ...)\<close> loop with its early \<^verbatim>\<open>return true\<close>.\<close>

fun in_some_range :: "int \<Rightarrow> IPv4Range list \<Rightarrow> bool" where
  "in_some_range ipInt [] = False"
| "in_some_range ipInt (r # rs) =
     (if ipInt \<ge> range_start r \<and> ipInt \<le> range_end r then True else in_some_range ipInt rs)"

definition isIPv4Private :: "string \<Rightarrow> bool" where
  "isIPv4Private ip = in_some_range (ipv4ToInt ip) IPV4_PRIVATE_RANGES"

text \<open>
  \<^verbatim>\<open>expandIPv6\<close>. \<^verbatim>\<open>new Array(missingGroups)\<close> raises \<^verbatim>\<open>RangeError\<close> when the two
  sides of \<^verbatim>\<open>::\<close> already hold more than eight groups.
\<close>

definition expandIPv6 :: "string \<Rightarrow> error + string" where
  "expandIPv6 ip =
     (let withoutZone = hd (js_split ''%'' ip);
          halves = js_split ''::'' withoutZone
      in if length halves = 2 then
           (let left = (if halves ! 0 \<noteq> [] then js_split '':'' (halves ! 0) else []);
                right = (if halves ! 1 \<noteq> [] then js_split '':'' (halves ! 1) else [])
            in if length left + length right > 8 then Inl RangeError
               else Inr (js_join '':'' (map (\<lambda>g. toLowerCase (padStart4 g))
                      (left @ replicate (8 - (length left + length right)) ''0000'' @ right))))
         else Inr (js_join '':'' (map (\<lambda>g. toLowerCase (padStart4 g)) (js_split '':'' withoutZone))))"

definition isIPv6Private :: "string \<Rightarrow> bool" where
  "isIPv6Private expanded =
     (if expanded = ''0000:0000:0000:0000:0000:0000:0000:0001'' then True
      else if expanded = ''0000:0000:0000:0000:0000:0000:0000:0000'' then True
      else if take 2 expanded = ''fc'' \<or> take 2 expanded = ''fd'' then True
      else if (case parseInt 16 (take 4 expanded) of
                 None \<Rightarrow> False
               | Some firstGroup \<Rightarrow> firstGroup \<ge> 0xfe80 \<and> firstGroup \<le> 0xfebf) then True
      else if startsWith expanded ''0000:0000:0000:0000:0000:ffff:'' then
        (let hexGroups = js_split '':'' (drop 30 expanded) in
         if length hexGroups = 2 then
           (let highWord = toInt32 (parseInt 16 (hexGroups ! 0));
                lowWord = toInt32 (parseInt 16 (hexGroups ! 1));
                ipv4 = int_to_string (sar32 highWord 8 AND 0xff) @ ''.''
                     @ int_to_string (highWord AND 0xff) @ ''.''
                     @ int_to_string (sar32 lowWord 8 AND 0xff) @ ''.''
                     @ int_to_string (lowWord AND 0xff)
            in isIPv4Private ipv4)
         else False)
      else False)"

definition isPrivateIP :: "string \<Rightarrow> error + bool" where
  "isPrivateIP ip =
     (if CHR '':'' \<in> set ip then
        (case expandIPv6 ip of Inl e \<Rightarrow> Inl e | Inr expanded \<Rightarrow> Inr (isIPv6Private expanded))
      else Inr (isIPv4Private ip))"

text \<open>
  \<^verbatim>\<open>validateHostname\<close>. The two DNS lookups are the environment: \<open>resolve4\<close> and
  \<open>resolve6\<close> give the addresses of a host name, or \<open>None\<close> when the lookup rejects.
  The loop over \<open>allIPs\<close> throws at the first private address; an exception of
  \<open>isPrivateIP\<close> propagates.
\<close>

fun check_all_ips :: "string \<Rightarrow> string list \<Rightarrow> error + unit" where
  "check_all_ips hostname [] = Inr ()"
| "check_all_ips hostname (ip # ips) =
     (case isPrivateIP ip of
        Inl e \<Rightarrow> Inl e
      | Inr private \<Rightarrow>
          if private then Inl (SecurityError (ResolvesToPrivateIP hostname ip))
          else check_all_ips hostname ips)"

definition resolved_addresses ::
  "(string \<Rightarrow> string list option) \<Rightarrow> (string \<Rightarrow> string list option) \<Rightarrow> string \<Rightarrow> string list" where
  "resolved_addresses resolve4 resolve6 hostname =
     (case resolve4 hostname of None \<Rightarrow> [] | Some ipv4Addresses \<Rightarrow> ipv4Addresses)
     @ (case resolve6 hostname of None \<Rightarrow> [] | Some ipv6Addresses \<Rightarrow> ipv6Addresses)"

definition validateHostname ::
  "(string \<Rightarrow> string list option) \<Rightarrow> (string \<Rightarrow> string list option) \<Rightarrow> string \<Rightarrow> error + unit" where
  "validateHostname resolve4 resolve6 hostname =
     (let allIPs = resolved_addresses resolve4 resolve6 hostname
      in if length allIPs = 0 then Inl (SecurityError (DnsResolutionFailed hostname))
         else check_all_ips hostname allIPs)"

subsection \<open>The address ranges as the specification lists them\<close>

text \<open>
  The blocked IPv4 blocks in CIDR notation, an address \<open>a.b.c.d\<close> as the 32-bit value
  \<open>a * 2^24 + b * 2^16 + c * 2^8 + d\<close>, and the dotted-quad text of an address.
\<close>

definition blocked_cidrs_spec :: "((int \<times> int \<times> int \<times> int) \<times> nat) list" where
  "blocked_cidrs_spec =
     [((127, 0, 0, 0), 8), ((10, 0, 0, 0), 8), ((172, 16, 0, 0), 12), ((192, 168, 0, 0), 16),
      ((169, 254, 0, 0), 16), ((0, 0, 0, 0), 8), ((100, 64, 0, 0), 10), ((192, 0, 0, 0), 24),
      ((198, 18, 0, 0), 15)]"

definition quad_value :: "int \<Rightarrow> int \<Rightarrow> int \<Rightarrow> int \<Rightarrow> int" where
  "quad_value a b c d = a * 2 ^ 24 + b * 2 ^ 16 + c * 2 ^ 8 + d"

fun in_cidr :: "int \<Rightarrow> (int \<times> int \<times> int \<times> int) \<times> nat \<Rightarrow> bool" where
  "in_cidr v ((a, b, c, d), len) =
     (quad_value a b c d \<le> v \<and> v \<le> quad_value a b c d + 2 ^ (32 - len) - 1)"

definition ipv4_blocked_spec :: "int \<Rightarrow> bool" where
  "ipv4_blocked_spec v = list_ex (in_cidr v) blocked_cidrs_spec"

definition dotted_quad :: "int \<Rightarrow> int \<Rightarrow> int \<Rightarrow> int \<Rightarrow> string" where
  "dotted_quad a b c d =
     int_to_string a @ ''.'' @ int_to_string b @ ''.'' @ int_to_string c @ ''.'' @ int_to_string d"

definition is_octet :: "int \<Rightarrow> bool" where
  "is_octet a = (0 \<le> a \<and> a < 256)"

section \<open>Token estimator (crawler/token-counter)\<close>

text \<open>
  Page text is a JavaScript string: a sequence of UTF-16 code units, of which
  \<^verbatim>\<open>.length\<close> is the number. \<open>is_cjk\<close> is the character class of \<^verbatim>\<open>CJK_REGEX\<close>,
  \<open>is_js_whitespace\<close> the class \<^verbatim>\<open>\s\<close> of the runtime.
\<close>

type_synonym js_string = "16 word list"

definition is_cjk :: "16 word \<Rightarrow> bool" where
  "is_cjk c =
     ((0x3000 \<le> c \<and> c \<le> 0x303f) \<or> (0x3040 \<le> c \<and> c \<le> 0x309f)
      \<or> (0x30a0 \<le> c \<and> c \<le> 0x30ff) \<or> (0x4e00 \<le> c \<and> c \<le> 0x9faf)
      \<or> (0xac00 \<le> c \<and> c \<le> 0xd7af) \<or> (0xff00 \<le> c \<and> c \<le> 0xffef))"

definition is_js_whitespace :: "16 word \<Rightarrow> bool" where
  "is_js_whitespace c =
     ((0x0009 \<le> c \<and> c \<le> 0x000d) \<or> c = 0x0020 \<or> c = 0x00a0 \<or> c = 0x1680
      \<or> (0x2000 \<le> c \<and> c \<le> 0x200a) \<or> c = 0x2028 \<or> c = 0x2029 \<or> c = 0x202f
      \<or> c = 0x205f \<or> c = 0x3000 \<or> c = 0xfeff)"

definition CJK_THRESHOLD :: rat where
  "CJK_THRESHOLD = 3 / 10"

definition CHARS_PER_TOKEN_ENGLISH :: rat where
  "CHARS_PER_TOKEN_ENGLISH = 4"

definition CHARS_PER_TOKEN_CJK :: rat where
  "CHARS_PER_TOKEN_CJK = 3 / 2"

definition CHARS_PER_TOKEN_MIXED :: rat where
  "CHARS_PER_TOKEN_MIXED = 3"

definition countCjkCharacters :: "js_string \<Rightarrow> nat" where
  "countCjkCharacters text = length (filter is_cjk text)"

definition nonWhitespaceLength :: "js_string \<Rightarrow> nat" where
  "nonWhitespaceLength text = length (filter (\<lambda>c. \<not> is_js_whitespace c) text)"

text \<open>
  The source computes with doubles. The quotients here are quotients of string lengths
  (below \<open>2^53\<close>), for which the comparison with \<open>0.3\<close> and the rounding up of
  \<open>length / 1.5\<close>, \<open>length / 3\<close> and \<open>length / 4\<close> agree with exact arithmetic, so the
  model computes in \<open>rat\<close>. The division is guarded by the source: it happens only
  when \<open>nonWhitespaceLength\<close> is not 0.
\<close>

definition detectCharsPerToken :: "js_string \<Rightarrow> rat" where
  "detectCharsPerToken text =
     (let cjkCount = countCjkCharacters text in
      if cjkCount = 0 then CHARS_PER_TOKEN_ENGLISH
      else
        let nonWhitespaceLength = nonWhitespaceLength text in
        if nonWhitespaceLength = 0 then CHARS_PER_TOKEN_ENGLISH
        else
          let cjkRatio = of_nat cjkCount / of_nat nonWhitespaceLength in
          if cjkRatio \<ge> CJK_THRESHOLD then CHARS_PER_TOKEN_CJK
          else CHARS_PER_TOKEN_MIXED)"

definition estimateTokens :: "js_string \<Rightarrow> int" where
  "estimateTokens text =
     (if length text = 0 then 0
      else
        let charsPerToken = detectCharsPerToken text;
            estimated = \<lceil>of_nat (length text) / charsPerToken\<rceil>
        in max 1 estimated)"

subsection \<open>The estimate as the specification words it\<close>

text \<open>
  The specification chooses the divisor from the ratio of CJK characters to non-whitespace
  characters alone: 1.5 when the ratio is at least 0.3, 3 when it is strictly between 0
  and 0.3, 4 when it is 0. \<open>ratio_at_least_spec c n q\<close> is \<open>c / n \<ge> q\<close>; a positive
  count over no non-whitespace character at all is an infinite ratio, and no CJK
  character is ratio 0.
\<close>

definition ratio_at_least_spec :: "nat \<Rightarrow> nat \<Rightarrow> rat \<Rightarrow> bool" where
  "ratio_at_least_spec c n q = (if n = 0 then 0 < c else q \<le> of_nat c / of_nat n)"

definition divisor_spec :: "js_string \<Rightarrow> rat" where
  "divisor_spec text =
     (if countCjkCharacters text = 0 then 4
      else if ratio_at_least_spec (countCjkCharacters text) (nonWhitespaceLength text) (3 / 10)
      then 3 / 2
      else 3)"

definition estimateTokens_spec :: "js_string \<Rightarrow> int" where
  "estimateTokens_spec text =
     (if text = [] then 0 else max 1 \<lceil>of_nat (length text) / divisor_spec text\<rceil>)"


section \<open>URL utilities (\<^verbatim>\<open>utils/url\<close>)\<close>

subsection \<open>The URL class of the runtime\<close>

text \<open>
  The source parses and rebuilds URLs with the class \<^verbatim>\<open>URL\<close> of the runtime (the WHATWG URL
  Standard), which is not code of the repository. It is a parameter of the model: a record
  of the operations the source calls, on a type \<open>'u\<close> of URL objects.
  \<^item> \<open>new_URL s\<close> is \<^verbatim>\<open>new URL(s)\<close> and \<open>new_URL_with_base relative base\<close> is
    \<^verbatim>\<open>new URL(relative, base)\<close>; \<open>None\<close> is the \<^verbatim>\<open>TypeError\<close> of the constructor.
  \<^item> \<open>url_href\<close>, \<open>url_protocol\<close>, \<open>url_hostname\<close>, \<open>url_port\<close>, \<open>url_pathname\<close>,
    \<open>url_search\<close> and \<open>url_hash\<close> are the properties of these names, and
    \<open>url_searchParams\<close> is the list of the name-value pairs of \<^verbatim>\<open>searchParams\<close>. The
    class decodes the names and the values, which can then hold any character: they are
    JavaScript strings, lists of UTF-16 code units, and \<^verbatim>\<open>sort\<close> compares the names by
    code units.
  \<^item> \<open>set_hash_empty\<close> is the assignment \<^verbatim>\<open>hash = ""\<close>, \<open>set_port_empty\<close> the assignment
    \<^verbatim>\<open>port = ""\<close> and \<open>url_searchParams_sort\<close> the call \<^verbatim>\<open>searchParams.sort()\<close>; an object
    is a value here, and each gives the object after the change.
  The other texts are \<open>string\<close>s: what the class serialises is ASCII.
\<close>

record 'u URL_class =
  new_URL :: "string \<Rightarrow> 'u option"
  new_URL_with_base :: "string \<Rightarrow> string \<Rightarrow> 'u option"
  url_href :: "'u \<Rightarrow> string"
  url_protocol :: "'u \<Rightarrow> string"
  url_hostname :: "'u \<Rightarrow> string"
  url_port :: "'u \<Rightarrow> string"
  url_pathname :: "'u \<Rightarrow> string"
  url_search :: "'u \<Rightarrow> string"
  url_hash :: "'u \<Rightarrow> string"
  url_searchParams :: "'u \<Rightarrow> (js_string \<times> js_string) list"
  set_hash_empty :: "'u \<Rightarrow> 'u"
  set_port_empty :: "'u \<Rightarrow> 'u"
  url_searchParams_sort :: "'u \<Rightarrow> 'u"

subsection \<open>normalizeUrl, extractDomain, resolveUrl, isFetchableUrl\<close>

definition DEFAULT_PORTS :: "string \<Rightarrow> string option" where
  "DEFAULT_PORTS proto =
     (if proto = ''http:'' then Some ''80'' else if proto = ''https:'' then Some ''443'' else None)"

text \<open>\<^verbatim>\<open>normalized.replace(/\/$/, "")\<close>.\<close>

definition strip_trailing_slash :: "string \<Rightarrow> string" where
  "strip_trailing_slash s = (if s \<noteq> [] \<and> last s = CHR ''/'' then butlast s else s)"

definition normalizeUrl :: "'u URL_class \<Rightarrow> string \<Rightarrow> error + string" where
  "normalizeUrl W url =
     (case new_URL W url of
        None \<Rightarrow> Inl TypeError
      | Some parsed0 \<Rightarrow>
          let parsed1 = set_hash_empty W parsed0;
              parsed2 = (if Some (url_port W parsed1) = DEFAULT_PORTS (url_protocol W parsed1)
                         then set_port_empty W parsed1 else parsed1);
              parsed3 = url_searchParams_sort W parsed2;
              normalized = url_href W parsed3
          in Inr (if url_pathname W parsed3 = ''/'' \<and> url_search W parsed3 = []
                  then strip_trailing_slash normalized else normalized))"

text \<open>
  The object that \<open>normalizeUrl\<close> serialises: the parsed object after the three changes.
\<close>

definition normalized_object :: "'u URL_class \<Rightarrow> 'u \<Rightarrow> 'u" where
  "normalized_object W parsed0 =
     (let parsed1 = set_hash_empty W parsed0;
          parsed2 = (if Some (url_port W parsed1) = DEFAULT_PORTS (url_protocol W parsed1)
                     then set_port_empty W parsed1 else parsed1)
      in url_searchParams_sort W parsed2)"

definition extractDomain :: "'u URL_class \<Rightarrow> string \<Rightarrow> error + string" where
  "extractDomain W url =
     (case new_URL W url of None \<Rightarrow> Inl TypeError | Some parsed \<Rightarrow> Inr (url_hostname W parsed))"

definition resolveUrl :: "'u URL_class \<Rightarrow> string \<Rightarrow> string \<Rightarrow> error + string" where
  "resolveUrl W base relative =
     (case new_URL_with_base W relative base of
        None \<Rightarrow> Inl TypeError
      | Some resolved \<Rightarrow> Inr (url_href W resolved))"

definition FETCHABLE_SCHEMES :: "string set" where
  "FETCHABLE_SCHEMES = {''http:'', ''https:''}"

definition isFetchableUrl :: "'u URL_class \<Rightarrow> string \<Rightarrow> bool" where
  "isFetchableUrl W url =
     (case new_URL W url of None \<Rightarrow> False | Some parsed \<Rightarrow> url_protocol W parsed \<in> FETCHABLE_SCHEMES)"

subsection \<open>What the model takes from the URL Standard\<close>

text \<open>
  \<open>URL_objects W\<close> are the objects that the constructors build and the three changes give.
  The laws below are behaviour of the Standard's class that theorems name as a hypothesis:
  \<^item> \<open>reparses\<close>: the serialisation of an object is parsed to the same object;
  \<^item> \<open>changes_commute\<close>: clearing the fragment, clearing the port and sorting the
    parameters act on different parts of an object, and each does nothing the second time;
  \<^item> \<open>getters_framed\<close>: what each of the three changes does to the properties: the one it
    sets, and the others it leaves. The law for the path is for a path that is a list of
    segments (it is empty or starts with a slash): of an opaque path, as in
    \<^verbatim>\<open>data:a  #b\<close>, versions of the Standard remove the spaces at the end when the
    fragment or the query goes;
  \<^item> \<open>slash_optional\<close>: for an object with the path \<^verbatim>\<open>/\<close>, no query and no fragment, the
    serialisation ends with that slash, and without it the text is parsed to the same
    object (a special scheme such as \<^verbatim>\<open>http\<close>) or to the object with the empty path and
    all else equal, which serialises to that very text (any other scheme);
  \<^item> \<open>lower_case\<close>: the parser lower-cases the scheme, and the host of an \<^verbatim>\<open>http\<close> or
    \<^verbatim>\<open>https\<close> URL.
\<close>

inductive_set URL_objects :: "'u URL_class \<Rightarrow> 'u set" for W :: "'u URL_class" where
  constructed: "new_URL W s = Some u \<Longrightarrow> u \<in> URL_objects W"
| resolved: "new_URL_with_base W relative base = Some u \<Longrightarrow> u \<in> URL_objects W"
| hash_cleared: "u \<in> URL_objects W \<Longrightarrow> set_hash_empty W u \<in> URL_objects W"
| port_cleared: "u \<in> URL_objects W \<Longrightarrow> set_port_empty W u \<in> URL_objects W"
| params_sorted: "u \<in> URL_objects W \<Longrightarrow> url_searchParams_sort W u \<in> URL_objects W"

definition reparses :: "'u URL_class \<Rightarrow> bool" where
  "reparses W = (\<forall>u\<in>URL_objects W. new_URL W (url_href W u) = Some u)"

definition changes_commute :: "'u URL_class \<Rightarrow> bool" where
  "changes_commute W =
     (\<forall>u\<in>URL_objects W.
        set_hash_empty W (set_hash_empty W u) = set_hash_empty W u
        \<and> set_port_empty W (set_port_empty W u) = set_port_empty W u
        \<and> url_searchParams_sort W (url_searchParams_sort W u) = url_searchParams_sort W u
        \<and> set_hash_empty W (set_port_empty W u) = set_port_empty W (set_hash_empty W u)
        \<and> set_hash_empty W (url_searchParams_sort W u) = url_searchParams_sort W (set_hash_empty W u)
        \<and> set_port_empty W (url_searchParams_sort W u) = url_searchParams_sort W (set_port_empty W u))"

definition path_of_segments :: "string \<Rightarrow> bool" where
  "path_of_segments path = (path = [] \<or> hd path = CHR ''/'')"

definition getters_framed :: "'u URL_class \<Rightarrow> bool" where
  "getters_framed W =
     (\<forall>u\<in>URL_objects W.
        url_hash W (set_hash_empty W u) = []
        \<and> url_protocol W (set_hash_empty W u) = url_protocol W u
        \<and> url_hostname W (set_hash_empty W u) = url_hostname W u
        \<and> url_port W (set_hash_empty W u) = url_port W u
        \<and> (path_of_segments (url_pathname W u) \<longrightarrow>
               url_pathname W (set_hash_empty W u) = url_pathname W u)
        \<and> url_search W (set_hash_empty W u) = url_search W u
        \<and> url_searchParams W (set_hash_empty W u) = url_searchParams W u
        \<and> url_port W (set_port_empty W u) = []
        \<and> url_protocol W (set_port_empty W u) = url_protocol W u
        \<and> url_hostname W (set_port_empty W u) = url_hostname W u
        \<and> url_pathname W (set_port_empty W u) = url_pathname W u
        \<and> url_search W (set_port_empty W u) = url_search W u
        \<and> url_hash W (set_port_empty W u) = url_hash W u
        \<and> url_searchParams W (set_port_empty W u) = url_searchParams W u
        \<and> url_searchParams W (url_searchParams_sort W u) = sort_key fst (url_searchParams W u)
        \<and> (url_search W (url_searchParams_sort W u) = []) = (url_searchParams W u = [])
        \<and> url_protocol W (url_searchParams_sort W u) = url_protocol W u
        \<and> url_hostname W (url_searchParams_sort W u) = url_hostname W u
        \<and> url_port W (url_searchParams_sort W u) = url_port W u
        \<and> (path_of_segments (url_pathname W u) \<longrightarrow>
               url_pathname W (url_searchParams_sort W u) = url_pathname W u)
        \<and> url_hash W (url_searchParams_sort W u) = url_hash W u)"

definition settled :: "'u URL_class \<Rightarrow> 'u \<Rightarrow> bool" where
  "settled W u =
     (set_hash_empty W u = u \<and> url_searchParams_sort W u = u
      \<and> Some (url_port W u) \<noteq> DEFAULT_PORTS (url_protocol W u))"

definition slash_optional :: "'u URL_class \<Rightarrow> bool" where
  "slash_optional W =
     (\<forall>u\<in>URL_objects W.
        url_pathname W u = ''/'' \<and> url_search W u = [] \<and> settled W u \<longrightarrow>
        (\<exists>v. new_URL W (strip_trailing_slash (url_href W u)) = Some v
              \<and> (v = u
                  \<or> (url_href W v = strip_trailing_slash (url_href W u)
                      \<and> url_pathname W v \<noteq> ''/'' \<and> settled W v))))"

definition whatwg_laws :: "'u URL_class \<Rightarrow> bool" where
  "whatwg_laws W = (reparses W \<and> changes_commute W \<and> getters_framed W \<and> slash_optional W)"

definition lower_case :: "'u URL_class \<Rightarrow> bool" where
  "lower_case W =
     (\<forall>u\<in>URL_objects W.
        url_protocol W u = toLowerCase (url_protocol W u)
        \<and> (url_protocol W u \<in> {''http:'', ''https:''} \<longrightarrow>
             url_hostname W u = toLowerCase (url_hostname W u)))"

section \<open>A URL class for a fragment of the URL grammar\<close>

text \<open>
  \<open>model_URL\<close>, defined at the end of this section, is a URL class written after the URL
  Standard for absolute \<^verbatim>\<open>http\<close> and \<^verbatim>\<open>https\<close> URLs of the form
  \<^verbatim>\<open>scheme://host[:port][/path][?query][#fragment]\<close> in printable ASCII, with a host made
  of letters, digits, hyphens and dots. It accepts nothing else (no credentials, no
  IP-address or punycode host, no other scheme, no white space, no character the parser
  would percent-encode in a path, no query value that decodes to non-ASCII bytes): its
  \<open>None\<close> is not the \<^verbatim>\<open>TypeError\<close> of the runtime there. It serves to evaluate the functions
  of the repository on examples and to show that the laws above can be met; the theorems
  about every URL are stated for an arbitrary URL class.

  The record is the URL record of the Standard; the getters below are the properties
  \<^verbatim>\<open>protocol\<close>, \<^verbatim>\<open>hostname\<close>, \<^verbatim>\<open>port\<close>, \<^verbatim>\<open>pathname\<close>, \<^verbatim>\<open>search\<close>, \<^verbatim>\<open>hash\<close> and \<^verbatim>\<open>href\<close>.
\<close>

record URL =
  u_scheme :: string
  u_host :: string
  u_port :: "int option"
  u_path :: "string list"
  u_query :: "string option"
  u_fragment :: "string option"

definition get_protocol :: "URL \<Rightarrow> string" where
  "get_protocol u = u_scheme u @ '':''"

definition get_hostname :: "URL \<Rightarrow> string" where
  "get_hostname u = u_host u"

definition get_port :: "URL \<Rightarrow> string" where
  "get_port u = (case u_port u of None \<Rightarrow> [] | Some n \<Rightarrow> int_to_string n)"

definition get_pathname :: "URL \<Rightarrow> string" where
  "get_pathname u = concat (map (\<lambda>seg. CHR ''/'' # seg) (u_path u))"

definition get_search :: "URL \<Rightarrow> string" where
  "get_search u = (case u_query u of None \<Rightarrow> [] | Some q \<Rightarrow> if q = [] then [] else CHR ''?'' # q)"

definition href :: "URL \<Rightarrow> string" where
  "href u =
     u_scheme u @ ''://'' @ u_host u
     @ (case u_port u of None \<Rightarrow> [] | Some n \<Rightarrow> CHR '':'' # int_to_string n)
     @ get_pathname u
     @ (case u_query u of None \<Rightarrow> [] | Some q \<Rightarrow> CHR ''?'' # q)
     @ (case u_fragment u of None \<Rightarrow> [] | Some f \<Rightarrow> CHR ''#'' # f)"

text \<open>Character classes and percent-encoding.\<close>

definition is_printable :: "char \<Rightarrow> bool" where
  "is_printable c = (33 \<le> (of_char c :: nat) \<and> (of_char c :: nat) \<le> 126)"

definition is_alnum :: "char \<Rightarrow> bool" where
  "is_alnum c =
     (let n = (of_char c :: nat) in
      (48 \<le> n \<and> n \<le> 57) \<or> (65 \<le> n \<and> n \<le> 90) \<or> (97 \<le> n \<and> n \<le> 122))"

definition is_host_char :: "char \<Rightarrow> bool" where
  "is_host_char c = (is_alnum c \<or> c = CHR ''-'' \<or> c = CHR ''.'')"

definition is_path_char :: "char \<Rightarrow> bool" where
  "is_path_char c =
     (is_printable c \<and> c \<notin> {CHR 0x22, CHR ''#'', CHR ''<'', CHR ''>'', CHR ''?'', CHR 0x60,
                            CHR ''{'', CHR ''}'', CHR ''^'', CHR 0x5C})"

definition hex_digit_upper :: "nat \<Rightarrow> char" where
  "hex_digit_upper d = (if d < 10 then char_of (48 + d) else char_of (55 + d))"

definition percent_encode_char :: "char \<Rightarrow> string" where
  "percent_encode_char c =
     [CHR ''%'', hex_digit_upper ((of_char c :: nat) div 16), hex_digit_upper ((of_char c :: nat) mod 16)]"

definition percent_encode :: "(char \<Rightarrow> bool) \<Rightarrow> string \<Rightarrow> string" where
  "percent_encode in_set s = concat (map (\<lambda>c. if in_set c then percent_encode_char c else [c]) s)"

definition in_query_encode_set :: "char \<Rightarrow> bool" where
  "in_query_encode_set c = (c \<in> {CHR 0x22, CHR ''<'', CHR ''>'', CHR 0x27})"

definition in_fragment_encode_set :: "char \<Rightarrow> bool" where
  "in_fragment_encode_set c = (c \<in> {CHR 0x22, CHR ''<'', CHR ''>'', CHR 0x60})"

fun percent_decode :: "string \<Rightarrow> string" where
  "percent_decode (c # a # b # r) =
     (if c = CHR ''%'' \<and> is_digit_in 16 a \<and> is_digit_in 16 b
      then char_of (the (digit_val a) * 16 + the (digit_val b)) # percent_decode r
      else c # percent_decode (a # b # r))"
| "percent_decode s = s"

text \<open>The first occurrence of a delimiter: the text before it and, if it occurs, the text after.\<close>

definition cut_at :: "char \<Rightarrow> string \<Rightarrow> string \<times> string option" where
  "cut_at c s =
     (takeWhile (\<lambda>x. x \<noteq> c) s,
      case dropWhile (\<lambda>x. x \<noteq> c) s of [] \<Rightarrow> None | _ # r \<Rightarrow> Some r)"

text \<open>
  The host parser lower-cases an ASCII domain. A host whose last label starts with a digit
  may be an IPv4 address, and a label starting with \<^verbatim>\<open>xn--\<close> is punycode: both are outside
  the model, as are empty labels.
\<close>

definition host_ok :: "string \<Rightarrow> bool" where
  "host_ok h =
     (h \<noteq> [] \<and> list_all is_host_char h
      \<and> (let labels = js_split ''.'' h in
           list_all (\<lambda>l. l \<noteq> [] \<and> take 4 (toLowerCase l) \<noteq> ''xn--'') labels
           \<and> \<not> is_digit_in 10 (hd (last labels))))"

definition default_port :: "string \<Rightarrow> int" where
  "default_port sch = (if sch = ''http'' then 80 else 443)"

definition parse_port :: "string \<Rightarrow> string option \<Rightarrow> int option option" where
  "parse_port sch p =
     (case p of
        None \<Rightarrow> Some None
      | Some ds \<Rightarrow>
          if \<not> list_all (is_digit_in 10) ds then None
          else if ds = [] then Some None
          else if digits_value 10 ds > 65535 then None
          else if digits_value 10 ds = default_port sch then Some None
          else Some (Some (digits_value 10 ds)))"

text \<open>
  The path state of the parser: the segments between slashes, where a single-dot segment is
  dropped and a double-dot segment removes the segment before it; the last segment, ended
  by the end of the path, leaves an empty segment when it is a dot segment.
\<close>

definition is_single_dot :: "string \<Rightarrow> bool" where
  "is_single_dot seg = (toLowerCase seg \<in> {''.'', ''%2e''})"

definition is_double_dot :: "string \<Rightarrow> bool" where
  "is_double_dot seg = (toLowerCase seg \<in> {''..'', ''.%2e'', ''%2e.'', ''%2e%2e''})"

fun path_state :: "string list \<Rightarrow> string list \<Rightarrow> string list" where
  "path_state out [] = out"
| "path_state out [seg] =
     (if is_double_dot seg then butlast out @ [[]]
      else if is_single_dot seg then out @ [[]]
      else out @ [seg])"
| "path_state out (seg # rest) =
     (if is_double_dot seg then path_state (butlast out) rest
      else if is_single_dot seg then path_state out rest
      else path_state (out @ [seg]) rest)"

definition parse_path :: "string \<Rightarrow> string list" where
  "parse_path p = path_state [] (if p = [] then [[]] else js_split ''/'' (tl p))"

subsection \<open>URLSearchParams\<close>

text \<open>
  \<^verbatim>\<open>application/x-www-form-urlencoded\<close> parsing and serialising, and \<^verbatim>\<open>sort()\<close>: a stable
  sort of the pairs by name, names compared by code units. After sorting, the object writes
  its serialisation back to the URL, an empty one as no query.
\<close>

definition form_decode :: "string \<Rightarrow> string" where
  "form_decode s = percent_decode (map (\<lambda>c. if c = CHR ''+'' then CHR 0x20 else c) s)"

definition parse_urlencoded :: "string \<Rightarrow> (string \<times> string) list" where
  "parse_urlencoded q =
     map (\<lambda>seq. case cut_at CHR ''='' seq of
                   (name, None) \<Rightarrow> (form_decode name, [])
                 | (name, Some v) \<Rightarrow> (form_decode name, form_decode v))
         (filter (\<lambda>seq. seq \<noteq> []) (js_split ''&'' q))"

definition is_form_safe :: "char \<Rightarrow> bool" where
  "is_form_safe c = (is_alnum c \<or> c \<in> {CHR ''*'', CHR ''-'', CHR ''.'', CHR ''_''})"

definition form_encode :: "string \<Rightarrow> string" where
  "form_encode s =
     concat (map (\<lambda>c. if is_form_safe c then [c]
                       else if c = CHR 0x20 then ''+''
                       else percent_encode_char c) s)"

definition serialize_urlencoded :: "(string \<times> string) list \<Rightarrow> string" where
  "serialize_urlencoded l = js_join ''&'' (map (\<lambda>(n, v). form_encode n @ ''='' @ form_encode v) l)"

definition searchParams_sort :: "URL \<Rightarrow> URL" where
  "searchParams_sort u =
     (let l = sort_key fst (parse_urlencoded (case u_query u of None \<Rightarrow> [] | Some q \<Rightarrow> q));
          serializedQuery = serialize_urlencoded l
      in u\<lparr>u_query := (if serializedQuery = [] then None else Some serializedQuery)\<rparr>)"

definition is_ascii :: "char \<Rightarrow> bool" where
  "is_ascii c = ((of_char c :: nat) < 128)"

definition query_in_model :: "string \<Rightarrow> bool" where
  "query_in_model q = list_all (\<lambda>(n, v). list_all is_ascii n \<and> list_all is_ascii v) (parse_urlencoded q)"

subsection \<open>The parser\<close>

definition parseURL :: "string \<Rightarrow> URL option" where
  "parseURL input =
     (if \<not> list_all is_printable input then None
      else
        case cut_at CHR ''#'' input of (beforeFragment, frag) \<Rightarrow>
        case cut_at CHR ''?'' beforeFragment of (main, qry) \<Rightarrow>
        case cut_at CHR '':'' main of
          (sch, None) \<Rightarrow> None
        | (sch, Some rest) \<Rightarrow>
            if toLowerCase sch \<noteq> ''http'' \<and> toLowerCase sch \<noteq> ''https'' then None
            else if take 2 rest \<noteq> ''//'' then None
            else
              let authority = takeWhile (\<lambda>c. c \<noteq> CHR ''/'') (drop 2 rest);
                  pathText = dropWhile (\<lambda>c. c \<noteq> CHR ''/'') (drop 2 rest)
              in case cut_at CHR '':'' authority of (h, portText) \<Rightarrow>
                 if \<not> host_ok h then None
                 else if \<not> list_all is_path_char pathText then None
                 else if \<not> query_in_model (percent_encode in_query_encode_set (case qry of None \<Rightarrow> [] | Some q \<Rightarrow> q))
                 then None
                 else
                   case parse_port (toLowerCase sch) portText of
                     None \<Rightarrow> None
                   | Some p \<Rightarrow>
                       Some \<lparr>u_scheme = toLowerCase sch, u_host = toLowerCase h, u_port = p,
                             u_path = parse_path pathText,
                             u_query = map_option (percent_encode in_query_encode_set) qry,
                             u_fragment = map_option (percent_encode in_fragment_encode_set) frag\<rparr>)"


definition get_hash :: "URL \<Rightarrow> string" where
  "get_hash u = (case u_fragment u of None \<Rightarrow> [] | Some f \<Rightarrow> if f = [] then [] else CHR ''#'' # f)"

definition get_searchParams :: "URL \<Rightarrow> (string \<times> string) list" where
  "get_searchParams u = parse_urlencoded (case u_query u of None \<Rightarrow> [] | Some q \<Rightarrow> q)"

text \<open>The code units of an ASCII text, and the parameters of the fragment as the class gives them.\<close>

definition to_js :: "string \<Rightarrow> js_string" where
  "to_js s = map (\<lambda>c. of_nat (of_char c)) s"

definition params_js :: "(string \<times> string) list \<Rightarrow> (js_string \<times> js_string) list" where
  "params_js l = map (\<lambda>(name, v). (to_js name, to_js v)) l"

text \<open>
  \<^verbatim>\<open>new URL(relative, base)\<close> in the fragment: the base must be a URL; a reference that is
  itself an absolute URL is that URL, and a reference that starts with one slash replaces
  the path, the query and the fragment of the base.
\<close>

definition parseURL_with_base :: "string \<Rightarrow> string \<Rightarrow> URL option" where
  "parseURL_with_base relative base =
     (case parseURL base of
        None \<Rightarrow> None
      | Some b \<Rightarrow>
          (case parseURL relative of
             Some u \<Rightarrow> Some u
           | None \<Rightarrow>
               if take 1 relative = ''/'' \<and> take 2 relative \<noteq> ''//''
               then parseURL (href (b\<lparr>u_path := [], u_query := None, u_fragment := None\<rparr>) @ relative)
               else None))"

definition model_URL :: "URL URL_class" where
  "model_URL =
     \<lparr>new_URL = parseURL,
      new_URL_with_base = parseURL_with_base,
      url_href = href,
      url_protocol = get_protocol,
      url_hostname = get_hostname,
      url_port = get_port,
      url_pathname = get_pathname,
      url_search = get_search,
      url_hash = get_hash,
      url_searchParams = (\<lambda>u. params_js (get_searchParams u)),
      set_hash_empty = (\<lambda>u. u\<lparr>u_fragment := None\<rparr>),
      set_port_empty = (\<lambda>u. u\<lparr>u_port := None\<rparr>),
      url_searchParams_sort = searchParams_sort\<rparr>"

subsection \<open>URLs of other schemes\<close>

text \<open>
  The special schemes of the Standard are \<^verbatim>\<open>ftp\<close>, \<^verbatim>\<open>file\<close>, \<^verbatim>\<open>http\<close>, \<^verbatim>\<open>https\<close>, \<^verbatim>\<open>ws\<close> and
  \<^verbatim>\<open>wss\<close>. The host of a URL of any other scheme is an opaque host: the host parser checks
  its characters and keeps it as written, without lower-casing it. \<open>parse_opaque\<close>
  parses such URLs of the form \<^verbatim>\<open>scheme://host[/path]\<close>, with a host of letters, digits,
  hyphens and dots; the scheme is lower-cased as for every URL, there is no default port,
  and the path is empty when nothing follows the host. \<open>any_scheme_URL\<close> is \<open>model_URL\<close>
  with these URLs added.
\<close>

definition is_alpha :: "char \<Rightarrow> bool" where
  "is_alpha c =
     (let n = (of_char c :: nat) in (65 \<le> n \<and> n \<le> 90) \<or> (97 \<le> n \<and> n \<le> 122))"

definition SPECIAL_SCHEMES :: "string set" where
  "SPECIAL_SCHEMES = {''ftp'', ''file'', ''http'', ''https'', ''ws'', ''wss''}"

definition parse_opaque :: "string \<Rightarrow> URL option" where
  "parse_opaque input =
     (if \<not> list_all is_printable input then None
      else
        case cut_at CHR '':'' input of
          (sch, None) \<Rightarrow> None
        | (sch, Some rest) \<Rightarrow>
            if sch = [] \<or> \<not> is_alpha (hd sch)
               \<or> \<not> list_all (\<lambda>c. is_alnum c \<or> c \<in> {CHR ''+'', CHR ''-'', CHR ''.''}) sch
            then None
            else if toLowerCase sch \<in> SPECIAL_SCHEMES then None
            else if take 2 rest \<noteq> ''//'' then None
            else
              let h = takeWhile (\<lambda>c. c \<noteq> CHR ''/'') (drop 2 rest);
                  pathText = dropWhile (\<lambda>c. c \<noteq> CHR ''/'') (drop 2 rest)
              in if h = [] \<or> \<not> list_all is_host_char h then None
                 else if \<not> list_all is_path_char pathText then None
                 else Some \<lparr>u_scheme = toLowerCase sch, u_host = h, u_port = None,
                            u_path = (if pathText = [] then [] else parse_path pathText),
                            u_query = None, u_fragment = None\<rparr>)"

definition any_scheme_URL :: "URL URL_class" where
  "any_scheme_URL =
     model_URL\<lparr>new_URL := (\<lambda>input. case parseURL input of
                                        Some u \<Rightarrow> Some u
                                      | None \<Rightarrow> parse_opaque input)\<rparr>"

subsection \<open>The text of a URL and its normal form\<close>

text \<open>
  A URL of the modelled fragment, put together from its parts: the scheme, the host, the
  port digits after \<^verbatim>\<open>:\<close> (if any), the path, the query after \<^verbatim>\<open>?\<close> and the fragment after
  \<^verbatim>\<open>#\<close> (if any). \<open>url_parts_ok\<close> says that the parts are those of a valid absolute URL of
  the model.
\<close>

definition compose_url ::
  "string \<Rightarrow> string \<Rightarrow> string option \<Rightarrow> string \<Rightarrow> string option \<Rightarrow> string option \<Rightarrow> string" where
  "compose_url sch h portText pathText qry frag =
     sch @ ''://'' @ h
     @ (case portText of None \<Rightarrow> [] | Some ds \<Rightarrow> CHR '':'' # ds)
     @ pathText
     @ (case qry of None \<Rightarrow> [] | Some q \<Rightarrow> CHR ''?'' # q)
     @ (case frag of None \<Rightarrow> [] | Some f \<Rightarrow> CHR ''#'' # f)"

definition url_parts_ok ::
  "string \<Rightarrow> string \<Rightarrow> string option \<Rightarrow> string \<Rightarrow> string option \<Rightarrow> string option \<Rightarrow> bool" where
  "url_parts_ok sch h portText pathText qry frag =
     ((toLowerCase sch = ''http'' \<or> toLowerCase sch = ''https'')
      \<and> host_ok h
      \<and> (case portText of None \<Rightarrow> True
          | Some ds \<Rightarrow> list_all (is_digit_in 10) ds \<and> digits_value 10 ds \<le> 65535)
      \<and> (pathText = [] \<or> hd pathText = CHR ''/'')
      \<and> list_all is_path_char pathText
      \<and> (case qry of None \<Rightarrow> True
          | Some q \<Rightarrow> list_all is_printable q \<and> CHR ''#'' \<notin> set q
                     \<and> query_in_model (percent_encode in_query_encode_set q))
      \<and> (case frag of None \<Rightarrow> True | Some f \<Rightarrow> list_all is_printable f))"

text \<open>
  The normal form in the words of the specification: scheme and host in lower case, no
  fragment, the port only when it is not the default of the scheme, the query parameters
  sorted by key, and the path without its slash when it is exactly \<^verbatim>\<open>/\<close> and there is no
  query parameter.
\<close>

definition sorted_params_spec :: "string option \<Rightarrow> (string \<times> string) list" where
  "sorted_params_spec qry =
     sort_key fst (parse_urlencoded
       (percent_encode in_query_encode_set (case qry of None \<Rightarrow> [] | Some q \<Rightarrow> q)))"

definition normalized_form_spec ::
  "string \<Rightarrow> string \<Rightarrow> string option \<Rightarrow> string \<Rightarrow> string option \<Rightarrow> string" where
  "normalized_form_spec sch h portText pathText qry =
     toLowerCase sch @ ''://'' @ toLowerCase h
     @ (case portText of
          None \<Rightarrow> []
        | Some ds \<Rightarrow>
            if ds = [] \<or> digits_value 10 ds = default_port (toLowerCase sch) then []
            else CHR '':'' # int_to_string (digits_value 10 ds))
     @ (let pathn = concat (map (\<lambda>seg. CHR ''/'' # seg) (parse_path pathText));
            params = sorted_params_spec qry
        in if params = [] then (if pathn = ''/'' then [] else pathn)
           else pathn @ CHR ''?'' # serialize_urlencoded params)"

subsection \<open>Predicates used in the proofs\<close>

text \<open>
  The characters a form-encoded string is made of; a path segment without a slash and with
  path characters only; such a segment that is not a dot segment.
\<close>

definition form_char :: "char \<Rightarrow> bool" where
  "form_char c = (is_form_safe c \<or> c = CHR ''+'' \<or> c = CHR ''%'')"

definition seg_ok :: "string \<Rightarrow> bool" where
  "seg_ok seg = (CHR ''/'' \<notin> set seg \<and> list_all is_path_char seg)"

definition seg_plain :: "string \<Rightarrow> bool" where
  "seg_plain seg = (seg_ok seg \<and> \<not> is_single_dot seg \<and> \<not> is_double_dot seg)"


text \<open>The URL records that the parser of the fragment builds.\<close>

definition wf_URL :: "URL \<Rightarrow> bool" where
  "wf_URL u =
     ((u_scheme u = ''http'' \<or> u_scheme u = ''https'')
      \<and> host_ok (u_host u) \<and> toLowerCase (u_host u) = u_host u
      \<and> (case u_port u of None \<Rightarrow> True
          | Some n \<Rightarrow> 0 \<le> n \<and> n \<le> 65535 \<and> n \<noteq> default_port (u_scheme u))
      \<and> u_path u \<noteq> [] \<and> list_all seg_plain (u_path u)
      \<and> (case u_query u of None \<Rightarrow> True
          | Some q \<Rightarrow> list_all is_printable q \<and> CHR ''#'' \<notin> set q
                     \<and> \<not> list_ex in_query_encode_set q \<and> query_in_model q)
      \<and> (case u_fragment u of None \<Rightarrow> True
          | Some f \<Rightarrow> list_all is_printable f \<and> \<not> list_ex in_fragment_encode_set f))"

section \<open>Patterns and link filtering (\<^verbatim>\<open>utils/url\<close>, \<^verbatim>\<open>crawler/link-resolver\<close>)\<close>

subsection \<open>\<^verbatim>\<open>matchesPattern\<close>\<close>

text \<open>
  \<^verbatim>\<open>matchesPattern(url, pattern)\<close> puts a backslash before each of
  \<^verbatim>\<open>. + ? ^ $ { } ( ) | [ ]\<close> and the backslash itself, replaces each \<^verbatim>\<open>*\<close> by \<^verbatim>\<open>.*\<close>, and tests the URL against
  \<^verbatim>\<open>new RegExp("^" + escaped + "$", "i")\<close>. The escaped characters are all the characters,
  apart from \<^verbatim>\<open>*\<close>, that mean something in a regular expression, so the expression built is
  a sequence of atoms, one per character of the pattern: \<^verbatim>\<open>*\<close> gives \<^verbatim>\<open>.*\<close> and any other
  character gives itself. \<open>compile_pattern\<close> is that sequence and \<open>regex_test\<close> the anchored
  match: \<^verbatim>\<open>.\<close> matches any character but a line terminator, and with the flag \<^verbatim>\<open>i\<close> two
  characters match when their upper-case forms agree. A character is a code unit below
  256 here; \<open>canonicalize\<close> gives the code unit of its upper-case form.
\<close>

datatype atom = Literal char | AnyRun

definition compile_pattern :: "string \<Rightarrow> atom list" where
  "compile_pattern pattern = map (\<lambda>c. if c = CHR ''*'' then AnyRun else Literal c) pattern"

definition is_line_terminator :: "char \<Rightarrow> bool" where
  "is_line_terminator c = ((of_char c :: nat) = 10 \<or> (of_char c :: nat) = 13)"

definition canonicalize :: "char \<Rightarrow> nat" where
  "canonicalize c =
     (let n = (of_char c :: nat) in
      if 97 \<le> n \<and> n \<le> 122 then n - 32
      else if 224 \<le> n \<and> n \<le> 254 \<and> n \<noteq> 247 then n - 32
      else if n = 255 then 376
      else if n = 181 then 924
      else n)"

fun regex_test :: "atom list \<Rightarrow> string \<Rightarrow> bool" where
  "regex_test [] s = (s = [])"
| "regex_test (Literal p # atoms) [] = False"
| "regex_test (Literal p # atoms) (c # cs) = (canonicalize c = canonicalize p \<and> regex_test atoms cs)"
| "regex_test (AnyRun # atoms) [] = regex_test atoms []"
| "regex_test (AnyRun # atoms) (c # cs) =
     (regex_test atoms (c # cs) \<or> (\<not> is_line_terminator c \<and> regex_test (AnyRun # atoms) cs))"

definition matchesPattern :: "string \<Rightarrow> string \<Rightarrow> bool" where
  "matchesPattern url pattern = regex_test (compile_pattern pattern) url"

subsection \<open>\<^verbatim>\<open>filterLinks\<close>\<close>

record ResolvedLink =
  link_text :: string
  link_url :: string
  isInternal :: bool

datatype link_filter = FilterInternal | FilterExternal | FilterAll

text \<open>Every field of \<^verbatim>\<open>LinkFilterOptions\<close> is optional; \<open>filter_mode\<close> is its field \<^verbatim>\<open>filter\<close>.\<close>

record LinkFilterOptions =
  allowedDomains :: "string list option"
  excludePatterns :: "string list option"
  includePatterns :: "string list option"
  filter_mode :: "link_filter option"

text \<open>\<^verbatim>\<open>xs && xs.length > 0\<close> for an optional array, and the array there.\<close>

definition has_entries :: "'a list option \<Rightarrow> bool" where
  "has_entries xs = (case xs of None \<Rightarrow> False | Some l \<Rightarrow> length l > 0)"

definition entries :: "'a list option \<Rightarrow> 'a list" where
  "entries xs = (case xs of None \<Rightarrow> [] | Some l \<Rightarrow> l)"

text \<open>
  The callback \<^verbatim>\<open>filterLinks\<close> gives to \<^verbatim>\<open>links.filter\<close>: the four filters in the order of
  the source. \<^verbatim>\<open>extractDomain(link.url)\<close> is called only when there are allowed domains, and
  its \<^verbatim>\<open>TypeError\<close> is not caught.
\<close>

definition keep_link :: "'u URL_class \<Rightarrow> LinkFilterOptions \<Rightarrow> ResolvedLink \<Rightarrow> error + bool" where
  "keep_link W options link =
     (if filter_mode options = Some FilterInternal \<and> \<not> isInternal link then Inr False
      else if filter_mode options = Some FilterExternal \<and> isInternal link then Inr False
      else
        case (if has_entries (allowedDomains options)
              then (case extractDomain W (link_url link) of
                      Inl e \<Rightarrow> Inl e
                    | Inr linkDomain \<Rightarrow>
                        Inr (list_ex (\<lambda>domain. toLowerCase domain = toLowerCase linkDomain)
                               (entries (allowedDomains options))))
              else Inr True) of
          Inl e \<Rightarrow> Inl e
        | Inr isAllowed \<Rightarrow>
            if \<not> isAllowed then Inr False
            else if has_entries (includePatterns options)
                    \<and> \<not> list_ex (\<lambda>pattern. matchesPattern (link_url link) pattern)
                          (entries (includePatterns options))
            then Inr False
            else if has_entries (excludePatterns options)
                    \<and> list_ex (\<lambda>pattern. matchesPattern (link_url link) pattern)
                          (entries (excludePatterns options))
            then Inr False
            else Inr True)"

text \<open>\<^verbatim>\<open>Array.prototype.filter\<close> with a callback that may throw: the first throw ends the call.\<close>

fun array_filter :: "('a \<Rightarrow> error + bool) \<Rightarrow> 'a list \<Rightarrow> error + 'a list" where
  "array_filter f [] = Inr []"
| "array_filter f (x # xs) =
     (case f x of
        Inl e \<Rightarrow> Inl e
      | Inr keep \<Rightarrow>
          (case array_filter f xs of
             Inl e \<Rightarrow> Inl e
           | Inr kept \<Rightarrow> Inr (if keep then x # kept else kept)))"

definition filterLinks ::
  "'u URL_class \<Rightarrow> ResolvedLink list \<Rightarrow> string \<Rightarrow> LinkFilterOptions \<Rightarrow> error + ResolvedLink list" where
  "filterLinks W links baseDomain options = array_filter (keep_link W options) links"

section \<open>Link extraction (\<^verbatim>\<open>crawler/link-resolver\<close>)\<close>

text \<open>
  Besides the URL class, what the crawl engine gets from outside is a parameter of the model:
  \<^item> \<open>extractPage\<close>, the extraction pipeline: a page or an exception for a URL. The engine
    reads the fields \<^verbatim>\<open>title\<close>, \<^verbatim>\<open>content\<close> and \<^verbatim>\<open>html\<close> of a page. The field \<^verbatim>\<open>html\<close> is
    optional: the engine tests \<^verbatim>\<open>if (pageResult.html)\<close> because, in the words of its
    comment, the pipeline may or may not expose the raw HTML. The type \<^verbatim>\<open>PageResult\<close> of
    the pipeline of the repository declares no such field, so the pages of that pipeline
    have none. Page titles and contents are texts of UTF-16 code units, as the token
    estimator takes them;
  \<^item> \<open>anchors\<close>, the HTML parser: the \<^verbatim>\<open>href\<close> attribute and the text of every
    \<^verbatim>\<open>a[href]\<close> element of a document, in document order;
  \<^item> \<open>defaultMaxTokens\<close>, the configured default of the token budget.

  Within one crawl a URL is fetched at most once, so a function of the URL stands for
  the pipeline.
\<close>

record PageResult =
  pr_title :: js_string
  pr_content :: js_string
  pr_html :: "string option"

record crawl_env =
  extractPage :: "string \<Rightarrow> error + PageResult"
  anchors :: "string \<Rightarrow> (string \<times> string) list"
  defaultMaxTokens :: int

text \<open>\<^verbatim>\<open>s.trim()\<close>, for code units below 256: white space and line terminators go.\<close>

definition is_trim_space :: "char \<Rightarrow> bool" where
  "is_trim_space c = ((of_char c :: nat) \<in> {9, 10, 11, 12, 13, 32, 160})"

definition js_trim :: "string \<Rightarrow> string" where
  "js_trim s = rev (dropWhile is_trim_space (rev (dropWhile is_trim_space s)))"

definition NON_FETCHABLE_SCHEMES :: "string list" where
  "NON_FETCHABLE_SCHEMES =
     [''javascript:'', ''mailto:'', ''tel:'', ''data:'', ''blob:'', ''ftp:'', ''file:'']"

definition hasNonFetchableScheme :: "string \<Rightarrow> bool" where
  "hasNonFetchableScheme hrefText =
     (let lower = toLowerCase (js_trim hrefText)
      in list_ex (\<lambda>scheme. startsWith lower scheme) NON_FETCHABLE_SCHEMES)"

text \<open>
  The body of the \<^verbatim>\<open>each\<close> callback of \<^verbatim>\<open>extractLinks\<close> for one anchor, on the set
  \<^verbatim>\<open>seen\<close> and the array \<^verbatim>\<open>links\<close>. Only the call of \<^verbatim>\<open>resolveUrl\<close> is inside a
  \<^verbatim>\<open>try\<close>; an exception of \<^verbatim>\<open>normalizeUrl\<close> or \<^verbatim>\<open>extractDomain\<close> leaves the function.
\<close>

record link_acc =
  acc_seen :: "string set"
  acc_links :: "ResolvedLink list"

definition anchor_step ::
  "'u URL_class \<Rightarrow> string \<Rightarrow> string \<Rightarrow> string \<times> string \<Rightarrow> link_acc \<Rightarrow> error + link_acc" where
  "anchor_step W baseUrl baseDomain anchor acc =
     (let hrefText = fst anchor in
      if hrefText = [] \<or> length (js_trim hrefText) = 0 then Inr acc
      else
        let trimmedHref = js_trim hrefText in
        if startsWith trimmedHref ''#'' then Inr acc
        else if hasNonFetchableScheme trimmedHref then Inr acc
        else
          case resolveUrl W baseUrl trimmedHref of
            Inl e \<Rightarrow> Inr acc
          | Inr absoluteUrl \<Rightarrow>
              (case normalizeUrl W absoluteUrl of
                 Inl e \<Rightarrow> Inl e
               | Inr normalized \<Rightarrow>
                   if normalized \<in> acc_seen acc then Inr acc
                   else
                     let acc1 = acc\<lparr>acc_seen := insert normalized (acc_seen acc)\<rparr> in
                     if \<not> isFetchableUrl W normalized then Inr acc1
                     else
                       (case extractDomain W normalized of
                          Inl e \<Rightarrow> Inl e
                        | Inr linkDomain \<Rightarrow>
                            Inr (acc1\<lparr>acc_links := acc_links acc1 @
                                   [\<lparr>link_text = js_trim (snd anchor), link_url = normalized,
                                     isInternal = (linkDomain = baseDomain)\<rparr>]\<rparr>))))"

fun each_anchor ::
  "(string \<times> string \<Rightarrow> link_acc \<Rightarrow> error + link_acc) \<Rightarrow> (string \<times> string) list \<Rightarrow> link_acc
   \<Rightarrow> error + link_acc" where
  "each_anchor f [] acc = Inr acc"
| "each_anchor f (a # as) acc =
     (case f a acc of Inl e \<Rightarrow> Inl e | Inr acc' \<Rightarrow> each_anchor f as acc')"

definition extractLinks ::
  "'u URL_class \<Rightarrow> crawl_env \<Rightarrow> string \<Rightarrow> string \<Rightarrow> LinkFilterOptions option
   \<Rightarrow> error + ResolvedLink list" where
  "extractLinks W env html baseUrl options =
     (case extractDomain W baseUrl of
        Inl e \<Rightarrow> Inl e
      | Inr baseDomain \<Rightarrow>
          (case each_anchor (anchor_step W baseUrl baseDomain) (anchors env html)
                  \<lparr>acc_seen = {}, acc_links = []\<rparr> of
             Inl e \<Rightarrow> Inl e
           | Inr acc \<Rightarrow>
               (case options of
                  Some opts \<Rightarrow> filterLinks W (acc_links acc) baseDomain opts
                | None \<Rightarrow> Inr (acc_links acc))))"

section \<open>The crawl engine (\<^verbatim>\<open>crawler/bfs-crawler\<close>)\<close>

record CrawlOptions =
  maxTokens :: "int option"
  crawl_allowedDomains :: "string list option"
  crawl_excludePatterns :: "string list option"
  crawl_includePatterns :: "string list option"

record CrawlPageResult =
  page_url :: string
  page_title :: js_string
  page_content :: js_string
  page_depth :: nat
  links_found :: nat
  tokens :: int

datatype stop_reason = token_limit | no_more_links | all_visited

record CrawlSummary =
  total_pages :: nat
  total_tokens :: int
  max_depth_reached :: nat
  stopped_reason :: stop_reason

record CrawlResult =
  pages :: "CrawlPageResult list"
  summary :: CrawlSummary

record QueueEntry =
  q_url :: string
  q_depth :: nat

text \<open>The variables of \<^verbatim>\<open>crawl\<close> that the loop changes; \<open>acc_pages\<close> is its array \<^verbatim>\<open>pages\<close>.\<close>

record bfs_state =
  queue :: "QueueEntry list"
  visited :: "string set"
  acc_pages :: "CrawlPageResult list"
  totalTokens :: int
  maxDepthReached :: nat
  stoppedReason :: stop_reason

text \<open>
  \<^verbatim>\<open>pages[pages.length - 1].links_found = linksFound\<close>; a page has just been pushed when the
  engine does this.
\<close>

definition set_last_links_found :: "nat \<Rightarrow> CrawlPageResult list \<Rightarrow> CrawlPageResult list" where
  "set_last_links_found linksFound ps =
     (if ps = [] then ps else butlast ps @ [(last ps)\<lparr>links_found := linksFound\<rparr>])"

text \<open>
  One turn of the \<^verbatim>\<open>while\<close> loop on the entry taken from the front of the queue: it ends
  the turn (\<^verbatim>\<open>continue\<close>, or the end of the body), leaves the loop (\<^verbatim>\<open>break\<close>), or an
  exception leaves \<^verbatim>\<open>crawl\<close>. A truthy \<^verbatim>\<open>pageResult.html\<close> is a non-empty string.
\<close>

datatype turn = Continue bfs_state | Break bfs_state | Throw error

definition iteration ::
  "'u URL_class \<Rightarrow> crawl_env \<Rightarrow> int \<Rightarrow> string \<Rightarrow> LinkFilterOptions \<Rightarrow> QueueEntry \<Rightarrow> bfs_state
   \<Rightarrow> turn" where
  "iteration W env budget startDomain linkFilterOptions entry st =
     (if q_url entry \<in> visited st then Continue st
      else
        let st1 = st\<lparr>visited := insert (q_url entry) (visited st)\<rparr>;
            st2 = (if q_depth entry > maxDepthReached st1
                   then st1\<lparr>maxDepthReached := q_depth entry\<rparr> else st1)
        in
        case extractPage env (q_url entry) of
          Inl e \<Rightarrow> Continue st2
        | Inr pageResult \<Rightarrow>
            let pageTokens = estimateTokens (pr_content pageResult);
                st3 = st2\<lparr>acc_pages := acc_pages st2 @
                         [\<lparr>page_url = q_url entry, page_title = pr_title pageResult,
                           page_content = pr_content pageResult, page_depth = q_depth entry,
                           links_found = 0, tokens = pageTokens\<rparr>]\<rparr>;
                st4 = st3\<lparr>totalTokens := totalTokens st3 + pageTokens\<rparr>
            in
            if totalTokens st4 \<ge> budget then Break (st4\<lparr>stoppedReason := token_limit\<rparr>)
            else
              (case pr_html pageResult of
                 None \<Rightarrow> Continue (st4\<lparr>acc_pages := set_last_links_found 0 (acc_pages st4)\<rparr>)
               | Some html \<Rightarrow>
                   if html = [] then Continue (st4\<lparr>acc_pages := set_last_links_found 0 (acc_pages st4)\<rparr>)
                   else
                     (case extractLinks W env html (q_url entry) None of
                        Inl e \<Rightarrow> Throw e
                      | Inr allLinks \<Rightarrow>
                          (case filterLinks W allLinks startDomain linkFilterOptions of
                             Inl e \<Rightarrow> Throw e
                           | Inr filteredLinks \<Rightarrow>
                               Continue (st4\<lparr>queue := queue st4 @
                                            map (\<lambda>link. \<lparr>q_url = link_url link, q_depth = q_depth entry + 1\<rparr>)
                                              (filter (\<lambda>link. link_url link \<notin> visited st4) filteredLinks),
                                          acc_pages := set_last_links_found (length allLinks) (acc_pages st4)\<rparr>)))))"

text \<open>
  The loop. The web it walks may have no end, so the number of turns is bounded by a
  count given in advance: \<open>None\<close> says that the count ran out before the loop ended.
\<close>

fun bfs_loop ::
  "'u URL_class \<Rightarrow> crawl_env \<Rightarrow> int \<Rightarrow> string \<Rightarrow> LinkFilterOptions \<Rightarrow> nat \<Rightarrow> bfs_state
   \<Rightarrow> (error + bfs_state) option" where
  "bfs_loop W env budget startDomain linkFilterOptions 0 st = None"
| "bfs_loop W env budget startDomain linkFilterOptions (Suc turns) st =
     (case queue st of
        [] \<Rightarrow> Some (Inr st)
      | entry # rest \<Rightarrow>
          (case iteration W env budget startDomain linkFilterOptions entry (st\<lparr>queue := rest\<rparr>) of
             Continue st' \<Rightarrow> bfs_loop W env budget startDomain linkFilterOptions turns st'
           | Break st' \<Rightarrow> Some (Inr st')
           | Throw e \<Rightarrow> Some (Inl e)))"

text \<open>After the loop: the stop reason, and the result object.\<close>

definition final_reason :: "bfs_state \<Rightarrow> stop_reason" where
  "final_reason st =
     (if stoppedReason st \<noteq> token_limit
      then (if card (visited st) > 0 \<and> length (queue st) = 0
            then (if length (acc_pages st) < card (visited st) then no_more_links else all_visited)
            else stoppedReason st)
      else stoppedReason st)"

definition build_result :: "bfs_state \<Rightarrow> CrawlResult" where
  "build_result st =
     \<lparr>pages = acc_pages st,
      summary = \<lparr>total_pages = length (acc_pages st), total_tokens = totalTokens st,
                 max_depth_reached = maxDepthReached st, stopped_reason = final_reason st\<rparr>\<rparr>"

text \<open>\<^verbatim>\<open>options?.maxTokens ?? config.defaultMaxTokens\<close>, and the filter options of the crawl.\<close>

definition budget_of :: "crawl_env \<Rightarrow> CrawlOptions option \<Rightarrow> int" where
  "budget_of env options =
     (case Option.bind options maxTokens of None \<Rightarrow> defaultMaxTokens env | Some m \<Rightarrow> m)"

definition linkFilterOptions_of :: "CrawlOptions option \<Rightarrow> LinkFilterOptions" where
  "linkFilterOptions_of options =
     \<lparr>allowedDomains = Option.bind options crawl_allowedDomains,
      excludePatterns = Option.bind options crawl_excludePatterns,
      includePatterns = Option.bind options crawl_includePatterns,
      filter_mode = Some FilterAll\<rparr>"

definition initial_state :: "string \<Rightarrow> bfs_state" where
  "initial_state normalizedStart =
     \<lparr>queue = [\<lparr>q_url = normalizedStart, q_depth = 0\<rparr>], visited = {}, acc_pages = [],
      totalTokens = 0, maxDepthReached = 0, stoppedReason = no_more_links\<rparr>"

definition crawl ::
  "nat \<Rightarrow> 'u URL_class \<Rightarrow> crawl_env \<Rightarrow> string \<Rightarrow> CrawlOptions option \<Rightarrow> (error + CrawlResult) option" where
  "crawl turns W env startUrl options =
     (case normalizeUrl W startUrl of
        Inl e \<Rightarrow> Some (Inl e)
      | Inr normalizedStart \<Rightarrow>
          (case extractDomain W normalizedStart of
             Inl e \<Rightarrow> Some (Inl e)
           | Inr startDomain \<Rightarrow>
               (case bfs_loop W env (budget_of env options) startDomain (linkFilterOptions_of options)
                       turns (initial_state normalizedStart) of
                  None \<Rightarrow> None
                | Some (Inl e) \<Rightarrow> Some (Inl e)
                | Some (Inr st) \<Rightarrow> Some (Inr (build_result st)))))"

subsection \<open>Notions used to state the properties of a crawl\<close>

text \<open>
  The sum of \<^verbatim>\<open>pages[i].tokens\<close> and the maximum of \<^verbatim>\<open>pages[i].depth\<close> (0 for no page).
  \<open>kept_in_full\<close> says that a page of the result carries the title and the content that
  the pipeline gave for its URL, and their token estimate.
\<close>

definition tokens_sum :: "CrawlPageResult list \<Rightarrow> int" where
  "tokens_sum ps = sum_list (map tokens ps)"

definition max_depth :: "CrawlPageResult list \<Rightarrow> nat" where
  "max_depth ps = fold max (map page_depth ps) 0"


subsection \<open>Three small sites\<close>

text \<open>
  \<open>site_down\<close>: every fetch fails. \<open>site_dead_link\<close>: the start page has five characters
  and one link, to a page whose fetch fails. \<open>site_big_page\<close>: the start page has 2000
  characters of ASCII text.
\<close>

definition site_down :: crawl_env where
  "site_down =
     \<lparr>extractPage = (\<lambda>url. Inl (FetchError ''HTTP 404'')),
      anchors = (\<lambda>html. []),
      defaultMaxTokens = 100000\<rparr>"

definition site_dead_link :: crawl_env where
  "site_dead_link =
     \<lparr>extractPage = (\<lambda>url. if url = ''https://example.com''
                          then Inr \<lparr>pr_title = [], pr_content = [0x48, 0x65, 0x6C, 0x6C, 0x6F],
                                    pr_html = Some ''<a href=/gone>gone</a>''\<rparr>
                          else Inl (FetchError ''HTTP 404'')),
      anchors = (\<lambda>html. [(''/gone'', ''gone'')]),
      defaultMaxTokens = 100000\<rparr>"




definition empty_result :: CrawlResult where
  "empty_result =
     \<lparr>pages = [],
      summary = \<lparr>total_pages = 0, total_tokens = 0, max_depth_reached = 0,
                 stopped_reason = no_more_links\<rparr>\<rparr>"


chapter \<open>Verification\<close>

section \<open>Strings and numbers\<close>

lemma js_split_nonempty: "js_split sep s \<noteq> []"
  by (induction sep s rule: js_split.induct) (auto simp: Let_def)

lemma js_split_char_none: "c \<notin> set s \<Longrightarrow> js_split [c] s = [s]"
  by (induction s) (auto simp: Let_def)

lemma js_split_char_app: "c \<notin> set a \<Longrightarrow> js_split [c] (a @ c # r) = a # js_split [c] r"
  by (induction a) (auto simp: Let_def)

lemma digit_val_digit_char: "d < 10 \<Longrightarrow> digit_val (digit_char d) = Some d"
  by (simp add: digit_val_def digit_char_def Let_def)

lemma is_digit_digit_char: "d < 10 \<Longrightarrow> is_digit_in 10 (digit_char d)"
  by (simp add: is_digit_in_def digit_val_digit_char)

lemma of_char_digit_char: "d < 10 \<Longrightarrow> of_char (digit_char d) = 48 + d"
  by (simp add: digit_char_def)


lemma dec_digits_all: "0 \<le> n \<Longrightarrow> c \<in> set (dec_digits n) \<Longrightarrow> \<exists>d<10. c = digit_char d"
proof (induction n rule: dec_digits.induct)
  case (1 n)
  show ?case
  proof (cases "n < 10")
    case True
    with 1(2,3) have "c = digit_char (nat n)" by (subst (asm) dec_digits.simps) simp
    with True 1(2) show ?thesis by (intro exI[of _ "nat n"]) simp
  next
    case False
    with 1(3) have "c \<in> set (dec_digits (n div 10)) \<or> c = digit_char (nat (n mod 10))"
      by (subst (asm) dec_digits.simps) auto
    then show ?thesis
    proof
      assume "c \<in> set (dec_digits (n div 10))"
      with 1(1)[OF False] 1(2) False show ?thesis by simp
    next
      assume "c = digit_char (nat (n mod 10))"
      then show ?thesis by (intro exI[of _ "nat (n mod 10)"]) simp
    qed
  qed
qed

lemma dec_digits_nonempty: "dec_digits n \<noteq> []"
  by (subst dec_digits.simps) simp

lemma digits_value_snoc: "digits_value r (xs @ [c]) = digits_value r xs * int r + int (the (digit_val c))"
  by (simp add: digits_value_def)

lemma digits_value_dec: "0 \<le> n \<Longrightarrow> digits_value 10 (dec_digits n) = n"
proof (induction n rule: dec_digits.induct)
  case (1 n)
  show ?case
  proof (cases "n < 10")
    case True
    with 1 show ?thesis by (subst dec_digits.simps) (simp add: digits_value_def digit_val_digit_char)
  next
    case False
    with 1 have "digits_value 10 (dec_digits (n div 10)) = n div 10" by simp
    with False 1 show ?thesis
      by (subst dec_digits.simps) (simp add: digits_value_snoc digit_val_digit_char)
  qed
qed

lemma int_to_string_nonneg: "0 \<le> n \<Longrightarrow> int_to_string n = dec_digits n"
  by (simp add: int_to_string_def)



lemma hex_digit_not_special:
  assumes "is_digit_in 16 c"
  shows "c \<noteq> CHR '':''" "c \<noteq> CHR ''%''" "c \<noteq> CHR ''-''" "c \<noteq> CHR ''+''" "\<not> is_space c"
    "c \<noteq> CHR ''x''" "c \<noteq> CHR ''X''"
  using assms by (auto simp: is_digit_in_def digit_val_def Let_def is_space_def split: if_splits)

lemma digit_val_lower: "digit_val (lower_char c) = digit_val c"
  by (auto simp: digit_val_def lower_char_def is_upper_ascii_def Let_def)

lemma is_digit_in_lower: "is_digit_in r (lower_char c) = is_digit_in r c"
  by (simp add: is_digit_in_def digit_val_lower)



section \<open>Network security gate\<close>

subsection \<open>IPv4: the dotted quad and the range table\<close>










subsection \<open>IPv6: the first group of an expanded address\<close>






lemma strip_hex_prefix_hex:
  assumes "\<forall>c\<in>set s. is_digit_in 16 c"
  shows "strip_hex_prefix 16 s = s"
proof -
  have "take 2 s \<noteq> ''0x'' \<and> take 2 s \<noteq> ''0X''"
  proof (cases s)
    case Nil then show ?thesis by simp
  next
    case (Cons a t)
    show ?thesis
    proof (cases t)
      case Nil with Cons show ?thesis by simp
    next
      case (Cons b u)
      with \<open>s = a # t\<close> assms have "is_digit_in 16 b" by simp
      from hex_digit_not_special(6,7)[OF this] Cons \<open>s = a # t\<close> show ?thesis by simp
    qed
  qed
  then show ?thesis by (simp add: strip_hex_prefix_def)
qed

lemma parseInt_hex:
  assumes "\<forall>c\<in>set s. is_digit_in 16 c" "s \<noteq> []"
  shows "parseInt 16 s = Some (digits_value 16 s)"
proof -
  obtain x xs where xs: "s = x # xs" using assms(2) by (cases s) auto
  then have hx: "is_digit_in 16 x" using assms(1) by simp
  have dw: "dropWhile is_space s = s" using hex_digit_not_special(5)[OF hx] xs by simp
  have t1: "take 1 s = [x]" using xs by simp
  have tw: "takeWhile (is_digit_in 16) s = s" using assms(1) by (simp add: takeWhile_eq_all_conv)
  show ?thesis
    unfolding parseInt_def dw Let_def t1
    using hex_digit_not_special(3,4)[OF hx] assms(2)
    by (simp add: strip_hex_prefix_hex[OF assms(1)] tw)
qed






subsection \<open>The classification of addresses\<close>

lemma js_split_dcolon_none: "CHR '':'' \<notin> set s \<Longrightarrow> js_split ''::'' s = [s]"
proof (induction s)
  case Nil then show ?case by simp
next
  case (Cons a s)
  then show ?case by (cases s) (auto simp: Let_def)
qed

lemma toLowerCase_dec: "0 \<le> n \<Longrightarrow> toLowerCase (dec_digits n) = dec_digits n"
proof -
  assume n: "0 \<le> n"
  have "lower_char c = c" if "c \<in> set (dec_digits n)" for c
  proof -
    from dec_digits_all[OF n that] obtain d where d: "d < 10" "c = digit_char d" by blast
    from of_char_digit_char[OF d(1)] d show ?thesis
      by (simp add: lower_char_def is_upper_ascii_def)
  qed
  then show ?thesis by (simp add: toLowerCase_def map_idI)
qed

lemma dec_digits_range:
  assumes "0 \<le> n" "c \<in> set (dec_digits n)"
  shows "48 \<le> (of_char c :: nat) \<and> (of_char c :: nat) \<le> 57"
proof -
  from dec_digits_all[OF assms] obtain d where d: "d < 10" "c = digit_char d" by blast
  from of_char_digit_char[OF d(1)] d show ?thesis by simp
qed

lemma dec_digits_length: "1 \<le> length (dec_digits n)"
  using dec_digits_nonempty[of n] by (cases "dec_digits n") auto

lemma dotted_quad_props:
  assumes "is_octet a" "is_octet b" "is_octet c" "is_octet d"
  shows "CHR '':'' \<notin> set (dotted_quad a b c d)" "CHR ''%'' \<notin> set (dotted_quad a b c d)"
    "toLowerCase (dotted_quad a b c d) = dotted_quad a b c d" "4 \<le> length (dotted_quad a b c d)"
proof -
  have nn: "0 \<le> a" "0 \<le> b" "0 \<le> c" "0 \<le> d" using assms by (simp_all add: is_octet_def)
  have no: "x \<notin> set (dec_digits n)" if "0 \<le> n" "x = CHR '':'' \<or> x = CHR ''%''" for x n
    using dec_digits_range[OF that(1), of x] that(2) by auto
  show "CHR '':'' \<notin> set (dotted_quad a b c d)" "CHR ''%'' \<notin> set (dotted_quad a b c d)"
    using nn no by (simp_all add: dotted_quad_def int_to_string_nonneg)
  have dot: "toLowerCase ''.'' = ''.''" by (simp add: toLowerCase_def lower_char_def is_upper_ascii_def)
  have app: "toLowerCase (x @ y) = toLowerCase x @ toLowerCase y" for x y by (simp add: toLowerCase_def)
  have cns: "toLowerCase (CHR ''.'' # y) = CHR ''.'' # toLowerCase y" for y
    by (simp add: toLowerCase_def lower_char_def is_upper_ascii_def)
  show "toLowerCase (dotted_quad a b c d) = dotted_quad a b c d"
    using nn by (simp add: dotted_quad_def int_to_string_nonneg app cns toLowerCase_dec)
  show "4 \<le> length (dotted_quad a b c d)"
    using dec_digits_length[of a] dec_digits_length[of b] dec_digits_length[of c] dec_digits_length[of d] nn
    by (simp add: dotted_quad_def int_to_string_nonneg)
qed

lemma expandIPv6_mapped_dotted:
  assumes "is_octet a" "is_octet b" "is_octet c" "is_octet d"
  shows "expandIPv6 (''::ffff:'' @ dotted_quad a b c d)
       = Inr (''0000:0000:0000:0000:0000:0000:ffff:'' @ dotted_quad a b c d)"
proof -
  define dq where "dq = dotted_quad a b c d"
  note p = dotted_quad_props[OF assms, folded dq_def]
  have dne: "dq \<noteq> []" using p(4) by auto
  have hdq: "hd dq \<noteq> CHR '':''" using p(1) dne by (cases dq) auto
  have z: "hd (js_split ''%'' (''::ffff:'' @ dq)) = ''::ffff:'' @ dq"
    using p(2) by (subst js_split_char_none) simp_all
  have h: "js_split ''::'' (''::ffff:'' @ dq) = [[], ''ffff:'' @ dq]"
    using dne hdq p(1) by (cases dq) (simp_all add: Let_def js_split_dcolon_none)
  have r: "js_split '':'' (''ffff:'' @ dq) = [''ffff'', dq]"
    using js_split_char_app[of "CHR '':''" "''ffff''" dq] p(1) by (simp add: js_split_char_none)
  have pad: "padStart4 dq = dq" using p(4) by (simp add: padStart4_def)
  have l0: "toLowerCase (padStart4 ''0000'') = ''0000''" "toLowerCase (padStart4 ''ffff'') = ''ffff''"
    by (simp_all add: toLowerCase_def padStart4_def lower_char_def is_upper_ascii_def)
  have rep: "replicate 6 x = [x, x, x, x, x, x]" for x :: string
    by (simp add: numeral_eq_Suc)
  show ?thesis
    unfolding dq_def[symmetric] expandIPv6_def z h Let_def
    by (simp add: js_split_char_none[OF p(1)] rep pad l0 p(3))
qed

lemma isPrivateIP_mapped_dotted:
  assumes "is_octet a" "is_octet b" "is_octet c" "is_octet d"
  shows "isPrivateIP (''::ffff:'' @ dotted_quad a b c d) = Inr False"
proof -
  have hz: "parseInt 16 ''0000'' = Some 0"
    by (subst parseInt_hex) (simp_all add: is_digit_in_def digit_val_def digits_value_def)
  have "\<not> isIPv6Private (''0000:0000:0000:0000:0000:0000:ffff:'' @ dotted_quad a b c d)"
    by (simp add: isIPv6Private_def hz startsWith_def)
  then show ?thesis
    unfolding isPrivateIP_def expandIPv6_mapped_dotted[OF assms] by simp
qed






text \<open>
  Claim C1 says that an IPv4-mapped address \<open>::ffff:a.b.c.d\<close> is unwrapped and classified by
  its embedded IPv4 address. The code does not do that for the dotted-quad spelling:
  \<open>expandIPv6\<close> counts \<open>a.b.c.d\<close> as one group and inserts six zero groups, so the
  expanded text never starts with \<open>0000:0000:0000:0000:0000:ffff:\<close> and the unwrapping branch
  of \<open>isIPv6Private\<close> is not reached. For every dotted quad the result is false, also
  for \<open>::ffff:127.0.0.1\<close>, although \<open>127.0.0.1\<close> itself is private; only the
  hexadecimal spelling \<open>::ffff:7f00:1\<close> is unwrapped.
\<close>

theorem isPrivateIP_mapped_dotted_quad:
  "(\<forall>a b c d. is_octet a \<and> is_octet b \<and> is_octet c \<and> is_octet d \<longrightarrow>
      isPrivateIP (''::ffff:'' @ dotted_quad a b c d) = Inr False)
   \<and> expandIPv6 ''::ffff:127.0.0.1'' = Inr ''0000:0000:0000:0000:0000:0000:ffff:127.0.0.1''
   \<and> isPrivateIP ''::ffff:127.0.0.1'' = Inr False
   \<and> isPrivateIP ''127.0.0.1'' = Inr True
   \<and> isPrivateIP ''::ffff:7f00:1'' = Inr True"
proof -
  have "expandIPv6 ''::ffff:127.0.0.1'' = Inr ''0000:0000:0000:0000:0000:0000:ffff:127.0.0.1''"
    by code_simp
  moreover have "isPrivateIP ''::ffff:127.0.0.1'' = Inr False" by code_simp
  moreover have "isPrivateIP ''127.0.0.1'' = Inr True" by code_simp
  moreover have "isPrivateIP ''::ffff:7f00:1'' = Inr True" by code_simp
  ultimately show ?thesis using isPrivateIP_mapped_dotted by blast
qed

theorem isPrivateIP_mapped_dotted_quad_witness:
  "isPrivateIP ''::ffff:10.0.0.1'' = Inr False \<and> isPrivateIP ''10.0.0.1'' = Inr True"
proof -
  have o: "is_octet 10 \<and> is_octet 0 \<and> is_octet 0 \<and> is_octet 1" by (simp add: is_octet_def)
  have d: "dotted_quad 10 0 0 1 = ''10.0.0.1''" by code_simp
  from isPrivateIP_mapped_dotted_quad o
  have "isPrivateIP (''::ffff:'' @ dotted_quad 10 0 0 1) = Inr False" by blast
  then have "isPrivateIP ''::ffff:10.0.0.1'' = Inr False" unfolding d by simp
  moreover have "isPrivateIP ''10.0.0.1'' = Inr True" by code_simp
  ultimately show ?thesis by blast
qed


subsection \<open>validateHostname\<close>

lemma check_all_ips_Inr:
  assumes "\<forall>ip\<in>set ips. \<exists>b. isPrivateIP ip = Inr b"
  shows "check_all_ips h ips = Inr () \<longleftrightarrow> (\<forall>ip\<in>set ips. isPrivateIP ip = Inr False)"
  using assms by (induction ips) (auto split: sum.splits)

lemma check_all_ips_Inl:
  assumes "\<forall>ip\<in>set ips. \<exists>b. isPrivateIP ip = Inr b"
  shows "(\<exists>r. check_all_ips h ips = Inl (SecurityError r)) \<longleftrightarrow> (\<exists>ip\<in>set ips. isPrivateIP ip = Inr True)"
  using assms by (induction ips) (auto split: sum.splits)


lemma validateHostname_cases:
  assumes "\<forall>ip\<in>set (resolved_addresses resolve4 resolve6 hostname). \<exists>b. isPrivateIP ip = Inr b"
  shows "((\<exists>reason. validateHostname resolve4 resolve6 hostname = Inl (SecurityError reason)) \<longleftrightarrow>
            (resolved_addresses resolve4 resolve6 hostname = []
             \<or> (\<exists>ip\<in>set (resolved_addresses resolve4 resolve6 hostname). isPrivateIP ip = Inr True)))"
    and "(validateHostname resolve4 resolve6 hostname = Inr () \<longleftrightarrow>
            (resolved_addresses resolve4 resolve6 hostname \<noteq> []
             \<and> (\<forall>ip\<in>set (resolved_addresses resolve4 resolve6 hostname). isPrivateIP ip = Inr False)))"
  using check_all_ips_Inl[OF assms, of hostname] check_all_ips_Inr[OF assms, of hostname]
  by (auto simp: validateHostname_def Let_def split: option.splits)

lemma resolved_addresses_cases:
  "resolve4 hostname = Some v4 \<Longrightarrow> resolve6 hostname = Some v6
     \<Longrightarrow> resolved_addresses resolve4 resolve6 hostname = v4 @ v6"
  "resolve4 hostname = None \<Longrightarrow> resolve6 hostname = Some v6
     \<Longrightarrow> resolved_addresses resolve4 resolve6 hostname = v6"
  "resolve4 hostname = Some v4 \<Longrightarrow> resolve6 hostname = None
     \<Longrightarrow> resolved_addresses resolve4 resolve6 hostname = v4"
  "resolve4 hostname = None \<Longrightarrow> resolve6 hostname = None
     \<Longrightarrow> resolved_addresses resolve4 resolve6 hostname = []"
  by (simp_all add: resolved_addresses_def)

text \<open>
  Claim C2 says that \<open>validateHostname\<close> fails with a \<open>SecurityError\<close> exactly when the
  lookups yield no address or one of the addresses lies in a private or reserved range.
  The code checks every address of the A answer and of the AAAA answer with
  \<open>isPrivateIP\<close>, and a lookup that rejects only contributes no address (first three
  parts below, for answers whose addresses \<open>isPrivateIP\<close> classifies without raising).
  But \<open>isPrivateIP\<close> takes the mapped address \<open>::ffff:a.b.c.d\<close> for public whatever
  \<open>a.b.c.d\<close> is (claim C1), so a host whose AAAA answer is \<open>::ffff:127.0.0.1\<close> passes,
  alone or next to public A addresses, although \<open>127.0.0.1\<close> is in the blocked range
  \<open>127.0.0.0/8\<close>: the equivalence the claim states does not hold of the code.
\<close>

theorem validateHostname_mapped_address_passes:
  "(\<forall>resolve4 resolve6 hostname v4 v6.
      resolve4 hostname = Some v4 \<and> resolve6 hostname = Some v6
      \<and> (\<forall>ip\<in>set (v4 @ v6). \<exists>b. isPrivateIP ip = Inr b) \<longrightarrow>
        ((\<exists>reason. validateHostname resolve4 resolve6 hostname = Inl (SecurityError reason))
           \<longleftrightarrow> (v4 @ v6 = [] \<or> (\<exists>ip\<in>set (v4 @ v6). isPrivateIP ip = Inr True)))
        \<and> (validateHostname resolve4 resolve6 hostname = Inr ()
           \<longleftrightarrow> (v4 @ v6 \<noteq> [] \<and> (\<forall>ip\<in>set (v4 @ v6). isPrivateIP ip = Inr False))))
   \<and> (\<forall>resolve4 resolve6 hostname ips.
        ((resolve4 hostname = None \<and> resolve6 hostname = Some ips)
         \<or> (resolve4 hostname = Some ips \<and> resolve6 hostname = None))
        \<and> (\<forall>ip\<in>set ips. \<exists>b. isPrivateIP ip = Inr b) \<longrightarrow>
        ((\<exists>reason. validateHostname resolve4 resolve6 hostname = Inl (SecurityError reason))
           \<longleftrightarrow> (ips = [] \<or> (\<exists>ip\<in>set ips. isPrivateIP ip = Inr True)))
        \<and> (validateHostname resolve4 resolve6 hostname = Inr ()
           \<longleftrightarrow> (ips \<noteq> [] \<and> (\<forall>ip\<in>set ips. isPrivateIP ip = Inr False))))
   \<and> (\<forall>resolve4 resolve6 hostname.
        resolve4 hostname = None \<and> resolve6 hostname = None \<longrightarrow>
        validateHostname resolve4 resolve6 hostname = Inl (SecurityError (DnsResolutionFailed hostname)))
   \<and> (\<forall>resolve4 resolve6 hostname v4 a b c d.
        (resolve4 hostname = None \<or> (resolve4 hostname = Some v4
                                       \<and> (\<forall>ip\<in>set v4. isPrivateIP ip = Inr False)))
        \<and> resolve6 hostname = Some [''::ffff:'' @ dotted_quad a b c d]
        \<and> is_octet a \<and> is_octet b \<and> is_octet c \<and> is_octet d \<longrightarrow>
        validateHostname resolve4 resolve6 hostname = Inr ())
   \<and> validateHostname (\<lambda>h. None) (\<lambda>h. Some [''::ffff:127.0.0.1'']) ''mapped.example'' = Inr ()
   \<and> validateHostname (\<lambda>h. Some [''8.8.8.8'']) (\<lambda>h. Some [''::ffff:127.0.0.1'']) ''mapped.example''
        = Inr ()
   \<and> isPrivateIP ''127.0.0.1'' = Inr True
   \<and> ipv4_blocked_spec (quad_value 127 0 0 1)"
proof (intro conjI allI impI)
  fix resolve4 resolve6 :: "string \<Rightarrow> string list option" and hostname v4 v6
  assume a: "resolve4 hostname = Some v4 \<and> resolve6 hostname = Some v6
      \<and> (\<forall>ip\<in>set (v4 @ v6). \<exists>b. isPrivateIP ip = Inr b)"
  then have r: "resolved_addresses resolve4 resolve6 hostname = v4 @ v6"
    by (simp add: resolved_addresses_cases)
  with a have c: "\<forall>ip\<in>set (resolved_addresses resolve4 resolve6 hostname). \<exists>b. isPrivateIP ip = Inr b"
    by simp
  from validateHostname_cases(1) [OF c] r
  show "(\<exists>reason. validateHostname resolve4 resolve6 hostname = Inl (SecurityError reason))
           \<longleftrightarrow> (v4 @ v6 = [] \<or> (\<exists>ip\<in>set (v4 @ v6). isPrivateIP ip = Inr True))" by simp
  from validateHostname_cases(2) [OF c] r
  show "validateHostname resolve4 resolve6 hostname = Inr ()
           \<longleftrightarrow> (v4 @ v6 \<noteq> [] \<and> (\<forall>ip\<in>set (v4 @ v6). isPrivateIP ip = Inr False))" by simp
next
  fix resolve4 resolve6 :: "string \<Rightarrow> string list option" and hostname ips
  assume a: "((resolve4 hostname = None \<and> resolve6 hostname = Some ips)
         \<or> (resolve4 hostname = Some ips \<and> resolve6 hostname = None))
        \<and> (\<forall>ip\<in>set ips. \<exists>b. isPrivateIP ip = Inr b)"
  then have r: "resolved_addresses resolve4 resolve6 hostname = ips"
    by (auto simp: resolved_addresses_cases)
  with a have c: "\<forall>ip\<in>set (resolved_addresses resolve4 resolve6 hostname). \<exists>b. isPrivateIP ip = Inr b"
    by simp
  from validateHostname_cases(1) [OF c] r
  show "(\<exists>reason. validateHostname resolve4 resolve6 hostname = Inl (SecurityError reason))
           \<longleftrightarrow> (ips = [] \<or> (\<exists>ip\<in>set ips. isPrivateIP ip = Inr True))" by simp
  from validateHostname_cases(2) [OF c] r
  show "validateHostname resolve4 resolve6 hostname = Inr ()
           \<longleftrightarrow> (ips \<noteq> [] \<and> (\<forall>ip\<in>set ips. isPrivateIP ip = Inr False))" by simp
next
  fix resolve4 resolve6 :: "string \<Rightarrow> string list option" and hostname
  assume "resolve4 hostname = None \<and> resolve6 hostname = None"
  then show "validateHostname resolve4 resolve6 hostname = Inl (SecurityError (DnsResolutionFailed hostname))"
    by (simp add: validateHostname_def resolved_addresses_def)
next
  fix resolve4 resolve6 :: "string \<Rightarrow> string list option" and hostname v4 and a b c d :: int
  assume a: "(resolve4 hostname = None \<or> (resolve4 hostname = Some v4
                                       \<and> (\<forall>ip\<in>set v4. isPrivateIP ip = Inr False)))
        \<and> resolve6 hostname = Some [''::ffff:'' @ dotted_quad a b c d]
        \<and> is_octet a \<and> is_octet b \<and> is_octet c \<and> is_octet d"
  then have m: "isPrivateIP (''::ffff:'' @ dotted_quad a b c d) = Inr False"
    using isPrivateIP_mapped_dotted by blast
  from a obtain ips where r: "resolved_addresses resolve4 resolve6 hostname
                                = ips @ [''::ffff:'' @ dotted_quad a b c d]"
      and p: "\<forall>ip\<in>set ips. isPrivateIP ip = Inr False"
    by (auto simp: resolved_addresses_def)
  from p m r have c: "\<forall>ip\<in>set (resolved_addresses resolve4 resolve6 hostname). isPrivateIP ip = Inr False"
    by auto
  then have "\<forall>ip\<in>set (resolved_addresses resolve4 resolve6 hostname). \<exists>b. isPrivateIP ip = Inr b"
    by auto
  from validateHostname_cases(2) [OF this] c r
  show "validateHostname resolve4 resolve6 hostname = Inr ()" by simp
next
  show "validateHostname (\<lambda>h. None) (\<lambda>h. Some [''::ffff:127.0.0.1'']) ''mapped.example'' = Inr ()"
    by code_simp
  show "validateHostname (\<lambda>h. Some [''8.8.8.8'']) (\<lambda>h. Some [''::ffff:127.0.0.1'']) ''mapped.example''
        = Inr ()"
    by code_simp
  show "isPrivateIP ''127.0.0.1'' = Inr True" by code_simp
  show "ipv4_blocked_spec (quad_value 127 0 0 1)" by code_simp
qed

theorem validateHostname_mapped_address_passes_witness:
  "validateHostname (\<lambda>h. None) (\<lambda>h. Some [''::ffff:10.0.0.1'']) ''intranet.example'' = Inr ()
   \<and> validateHostname (\<lambda>h. Some [''8.8.8.8'']) (\<lambda>h. Some [''::1'']) ''dual.example''
        = Inl (SecurityError (ResolvesToPrivateIP ''dual.example'' ''::1''))
   \<and> validateHostname (\<lambda>h. None) (\<lambda>h. Some [''2607:f8b0:4004:800::200e'']) ''v6only.example'' = Inr ()
   \<and> validateHostname (\<lambda>h. None) (\<lambda>h. None) ''missing.example''
        = Inl (SecurityError (DnsResolutionFailed ''missing.example''))"
proof -
  have d: "dotted_quad 10 0 0 1 = ''10.0.0.1''" by code_simp
  have e1: "isPrivateIP ''8.8.8.8'' = Inr False" by code_simp
  have e2: "isPrivateIP ''::1'' = Inr True" by code_simp
  have e3: "isPrivateIP ''2607:f8b0:4004:800::200e'' = Inr False" by code_simp
  note both = validateHostname_mapped_address_passes [THEN conjunct1, rule_format]
  note one = validateHostname_mapped_address_passes [THEN conjunct2, THEN conjunct1, rule_format]
  note none = validateHostname_mapped_address_passes
                [THEN conjunct2, THEN conjunct2, THEN conjunct1, rule_format]
  note mapped = validateHostname_mapped_address_passes
                [THEN conjunct2, THEN conjunct2, THEN conjunct2, THEN conjunct1, rule_format]
  have "validateHostname (\<lambda>h. None) (\<lambda>h. Some [''::ffff:'' @ dotted_quad 10 0 0 1])
                 ''intranet.example'' = Inr ()"
    by (rule mapped [where a = 10 and b = 0 and c = 0 and d = 1]) (simp add: is_octet_def)
  then have w1: "validateHostname (\<lambda>h. None) (\<lambda>h. Some [''::ffff:10.0.0.1'']) ''intranet.example'' = Inr ()"
    unfolding d by simp
  have "(\<exists>reason. validateHostname (\<lambda>h. Some [''8.8.8.8'']) (\<lambda>h. Some [''::1'']) ''dual.example''
                     = Inl (SecurityError reason))
          \<longleftrightarrow> ([''8.8.8.8''] @ [''::1''] = []
               \<or> (\<exists>ip\<in>set ([''8.8.8.8''] @ [''::1'']). isPrivateIP ip = Inr True))"
    by (rule both [THEN conjunct1]) (auto simp: e1 e2)
  then have "\<exists>reason. validateHostname (\<lambda>h. Some [''8.8.8.8'']) (\<lambda>h. Some [''::1'']) ''dual.example''
                     = Inl (SecurityError reason)"
    using e2 by simp
  moreover have "validateHostname (\<lambda>h. Some [''8.8.8.8'']) (\<lambda>h. Some [''::1'']) ''dual.example''
        = Inl (SecurityError (ResolvesToPrivateIP ''dual.example'' ''::1''))"
    by (simp add: validateHostname_def resolved_addresses_def e1 e2)
  ultimately have w2: "validateHostname (\<lambda>h. Some [''8.8.8.8'']) (\<lambda>h. Some [''::1'']) ''dual.example''
        = Inl (SecurityError (ResolvesToPrivateIP ''dual.example'' ''::1''))" by simp
  have "validateHostname (\<lambda>h. None) (\<lambda>h. Some [''2607:f8b0:4004:800::200e'']) ''v6only.example''
                    = Inr ()
          \<longleftrightarrow> ([''2607:f8b0:4004:800::200e''] \<noteq> []
               \<and> (\<forall>ip\<in>set [''2607:f8b0:4004:800::200e'']. isPrivateIP ip = Inr False))"
    by (rule one [THEN conjunct2]) (auto simp: e3)
  then have w3: "validateHostname (\<lambda>h. None) (\<lambda>h. Some [''2607:f8b0:4004:800::200e''])
                   ''v6only.example'' = Inr ()"
    using e3 by simp
  have w4: "validateHostname (\<lambda>h. None) (\<lambda>h. None) ''missing.example''
        = Inl (SecurityError (DnsResolutionFailed ''missing.example''))"
    by (rule none) simp
  from w1 w2 w3 w4 show ?thesis by simp
qed
section \<open>Token estimator\<close>

lemma ascii_not_cjk: "c < 128 \<Longrightarrow> \<not> is_cjk c"
  by (auto simp: is_cjk_def word_le_nat_alt word_less_nat_alt)

lemma countCjk_ascii: "\<forall>c\<in>set text. c < 128 \<Longrightarrow> countCjkCharacters text = 0"
  by (simp add: countCjkCharacters_def ascii_not_cjk)

lemma estimateTokens_zero_iff: "estimateTokens text = 0 \<longleftrightarrow> text = []"
  by (auto simp: estimateTokens_def Let_def)

lemma detect_cases:
  "detectCharsPerToken text =
     (if countCjkCharacters text = 0 \<or> nonWhitespaceLength text = 0 then 4
      else if (3::rat) / 10 \<le> of_nat (countCjkCharacters text) / of_nat (nonWhitespaceLength text)
      then 3 / 2 else 3)"
  by (simp add: detectCharsPerToken_def Let_def CJK_THRESHOLD_def CHARS_PER_TOKEN_ENGLISH_def
      CHARS_PER_TOKEN_CJK_def CHARS_PER_TOKEN_MIXED_def)

lemma estimate_44_ascii:
  assumes "length text = 44" "\<forall>c\<in>set text. c < 128"
  shows "estimateTokens text = 11"
  using assms by (simp add: estimateTokens_def detect_cases countCjk_ascii Let_def)

lemma estimate_single: "estimateTokens [c] = 1"
  by (simp add: estimateTokens_def detect_cases Let_def countCjkCharacters_def nonWhitespaceLength_def
      ceiling_divide_eq_div)

lemma estimate_agrees_spec:
  assumes "0 < nonWhitespaceLength text \<or> countCjkCharacters text = 0"
  shows "estimateTokens text = estimateTokens_spec text"
  using assms
  by (auto simp: estimateTokens_def estimateTokens_spec_def divisor_spec_def detect_cases
      ratio_at_least_spec_def Let_def)

lemma ceil83: "\<lceil>(8::rat) / 3\<rceil> = 3"
  by (rule ceiling_unique) simp_all


text \<open>
  Claim C8, as stated, gives the divisor by the ratio of CJK characters to non-whitespace
  characters alone. It fails on a text made of ideographic spaces (U+3000), which
  \<^verbatim>\<open>CJK_REGEX\<close> counts as CJK and \<^verbatim>\<open>\s\<close> counts as white space: four of them are 4 CJK
  characters over 0 non-whitespace characters, a ratio that is not 0, yet the source's guard
  for an empty non-whitespace text picks the divisor 4 and the estimate is 1, where the
  divisor 1.5 of the claim gives 3.
\<close>

theorem estimateTokens_ideographic_space_counterexample:
  "countCjkCharacters [0x3000, 0x3000, 0x3000, 0x3000] = 4
   \<and> nonWhitespaceLength [0x3000, 0x3000, 0x3000, 0x3000] = 0
   \<and> estimateTokens [0x3000, 0x3000, 0x3000, 0x3000] = 1
   \<and> estimateTokens_spec [0x3000, 0x3000, 0x3000, 0x3000] = 3"
  by (simp add: estimateTokens_def estimateTokens_spec_def divisor_spec_def detect_cases
      ratio_at_least_spec_def Let_def countCjkCharacters_def nonWhitespaceLength_def is_cjk_def
      is_js_whitespace_def ceil83)

text \<open>
  Claim C8, amended. For every text, \<open>estimateTokens\<close> is 0 exactly when the text is empty,
  and otherwise \<open>max 1 (ceil (length / divisor))\<close>, where the divisor is 4 when the text has
  no CJK character or no non-whitespace character, and otherwise 1.5 when the ratio of CJK
  characters to non-whitespace characters is at least 0.3 and 3 when it is below 0.3.
  This agrees with the estimate as the specification words it on every text that has a
  non-whitespace character or no CJK character. A pure-ASCII text of 44 characters
  estimates to 11, a single character to 1.
\<close>

theorem estimateTokens_amended:
  "(estimateTokens text = 0 \<longleftrightarrow> text = [])
   \<and> (text \<noteq> [] \<longrightarrow>
        estimateTokens text =
          max 1 \<lceil>of_nat (length text) /
            (if countCjkCharacters text = 0 \<or> nonWhitespaceLength text = 0 then (4::rat)
             else if (3::rat) / 10 \<le> of_nat (countCjkCharacters text) / of_nat (nonWhitespaceLength text)
             then 3 / 2 else 3)\<rceil>)
   \<and> (0 < nonWhitespaceLength text \<or> countCjkCharacters text = 0 \<longrightarrow>
        estimateTokens text = estimateTokens_spec text)
   \<and> (length text = 44 \<and> (\<forall>c\<in>set text. c < 128) \<longrightarrow> estimateTokens text = 11)
   \<and> (length text = 1 \<longrightarrow> estimateTokens text = 1)"
proof (intro conjI impI)
  show "estimateTokens text = 0 \<longleftrightarrow> text = []" by (rule estimateTokens_zero_iff)
next
  assume "text \<noteq> []"
  then show "estimateTokens text =
          max 1 \<lceil>of_nat (length text) /
            (if countCjkCharacters text = 0 \<or> nonWhitespaceLength text = 0 then (4::rat)
             else if (3::rat) / 10 \<le> of_nat (countCjkCharacters text) / of_nat (nonWhitespaceLength text)
             then 3 / 2 else 3)\<rceil>"
    unfolding estimateTokens_def detect_cases Let_def by simp
next
  assume "0 < nonWhitespaceLength text \<or> countCjkCharacters text = 0"
  then show "estimateTokens text = estimateTokens_spec text" by (rule estimate_agrees_spec)
next
  assume "length text = 44 \<and> (\<forall>c\<in>set text. c < 128)"
  then show "estimateTokens text = 11" using estimate_44_ascii by blast
next
  assume "length text = 1"
  then obtain c where "text = [c]" by (cases "text") auto
  then show "estimateTokens text = 1" by (simp add: estimate_single)
qed

theorem estimateTokens_amended_witness:
  "estimateTokens [0x48, 0x65, 0x6c, 0x6c, 0x6f, 0x20, 0x4e16, 0x754c] = 3
   \<and> estimateTokens_spec [0x48, 0x65, 0x6c, 0x6c, 0x6f, 0x20, 0x4e16, 0x754c] = 3
   \<and> estimateTokens (replicate 44 0x61) = 11
   \<and> estimateTokens [0x65e5] = 1"
proof -
  define t :: js_string where "t = [0x48, 0x65, 0x6c, 0x6c, 0x6f, 0x20, 0x4e16, 0x754c]"
  have c: "countCjkCharacters t = 2" and n: "nonWhitespaceLength t = 7" and l: "length t = 8"
    by (simp_all add: t_def countCjkCharacters_def nonWhitespaceLength_def is_cjk_def
        is_js_whitespace_def)
  have ne: "t \<noteq> []" by (simp add: t_def)
  from estimateTokens_amended[of t] ne
  have "estimateTokens t = max 1 \<lceil>of_nat (length t) /
            (if countCjkCharacters t = 0 \<or> nonWhitespaceLength t = 0 then (4::rat)
             else if (3::rat) / 10 \<le> of_nat (countCjkCharacters t) / of_nat (nonWhitespaceLength t)
             then 3 / 2 else 3)\<rceil>" by blast
  then have a: "estimateTokens t = 3" unfolding c n l by (simp add: ceil83)
  from estimateTokens_amended[of t] n have "estimateTokens t = estimateTokens_spec t" by simp
  with a have b: "estimateTokens_spec t = 3" by simp
  have "length (replicate 44 (0x61::16 word)) = 44 \<and> (\<forall>c\<in>set (replicate 44 (0x61::16 word)). c < 128)"
    by simp
  with estimateTokens_amended[of "replicate 44 0x61"]
  have d: "estimateTokens (replicate 44 0x61) = 11" by blast
  from estimateTokens_amended[of "[0x65e5]"] have e: "estimateTokens [0x65e5] = 1" by simp
  from a b d e show ?thesis unfolding t_def by blast
qed


section \<open>The URL class of the fragment\<close>

lemma model_URL_simps:
  "new_URL model_URL = parseURL"
  "new_URL_with_base model_URL = parseURL_with_base"
  "url_href model_URL = href"
  "url_protocol model_URL = get_protocol"
  "url_hostname model_URL = get_hostname"
  "url_port model_URL = get_port"
  "url_pathname model_URL = get_pathname"
  "url_search model_URL = get_search"
  "url_hash model_URL = get_hash"
  "url_searchParams model_URL u = params_js (get_searchParams u)"
  "set_hash_empty model_URL u = u\<lparr>u_fragment := None\<rparr>"
  "set_port_empty model_URL u = u\<lparr>u_port := None\<rparr>"
  "url_searchParams_sort model_URL = searchParams_sort"
  by (simp_all add: model_URL_def)

lemma normalizeUrl_model:
  "normalizeUrl model_URL url =
     (case parseURL url of
        None \<Rightarrow> Inl TypeError
      | Some parsed0 \<Rightarrow>
          let parsed1 = parsed0\<lparr>u_fragment := None\<rparr>;
              parsed2 = (if Some (get_port parsed1) = DEFAULT_PORTS (get_protocol parsed1)
                         then parsed1\<lparr>u_port := None\<rparr> else parsed1);
              parsed3 = searchParams_sort parsed2;
              normalized = href parsed3
          in Inr (if get_pathname parsed3 = ''/'' \<and> get_search parsed3 = []
                  then strip_trailing_slash normalized else normalized))"
  unfolding normalizeUrl_def model_URL_simps by (rule refl)

section \<open>URL utilities\<close>

subsection \<open>Character classes\<close>

lemma is_alnum_props:
  assumes "is_alnum c"
  shows "is_printable c" "is_host_char c" "is_path_char c" "is_form_safe c" "is_ascii c"
    "c \<noteq> CHR '':''" "c \<noteq> CHR ''/''" "c \<noteq> CHR ''?''" "c \<noteq> CHR ''#''" "c \<noteq> CHR ''.''"
  using assms
  by (auto simp: is_alnum_def is_printable_def is_host_char_def is_path_char_def is_form_safe_def
      is_ascii_def Let_def)

lemma of_char_lower:
  "(of_char (lower_char c) :: nat) = (if is_upper_ascii c then of_char c + 32 else of_char c)"
  by (simp add: lower_char_def is_upper_ascii_def)

lemma char_eq_nat: "c = d \<longleftrightarrow> (of_char c :: nat) = of_char d"
  by auto

lemma lower_char_not_upper: "\<not> is_upper_ascii c \<Longrightarrow> lower_char c = c"
  by (simp add: lower_char_def)

lemma is_alnum_lower: "is_alnum (lower_char c) = is_alnum c"
proof (cases "is_upper_ascii c")
  case True
  then have "97 \<le> (of_char (lower_char c) :: nat) \<and> (of_char (lower_char c) :: nat) \<le> 122"
    unfolding of_char_lower by (simp add: is_upper_ascii_def)
  then have "is_alnum (lower_char c)" by (simp add: is_alnum_def Let_def)
  moreover have "is_alnum c" using True by (simp add: is_alnum_def is_upper_ascii_def Let_def)
  ultimately show ?thesis by simp
next
  case False
  then show ?thesis by (simp add: lower_char_not_upper)
qed

lemma is_host_char_props:
  assumes "is_host_char c"
  shows "is_printable c" "is_path_char c" "c \<noteq> CHR '':''" "c \<noteq> CHR ''/''" "c \<noteq> CHR ''?''" "c \<noteq> CHR ''#''"
proof -
  consider "is_alnum c" | "c = CHR ''-''" | "c = CHR ''.''"
    using assms by (auto simp: is_host_char_def)
  then have "is_printable c \<and> is_path_char c \<and> c \<noteq> CHR '':'' \<and> c \<noteq> CHR ''/'' \<and> c \<noteq> CHR ''?'' \<and> c \<noteq> CHR ''#''"
  proof cases
    case 1
    from is_alnum_props[OF this] show ?thesis by simp
  next
    case 2
    then show ?thesis by (simp add: is_printable_def is_path_char_def)
  next
    case 3
    then show ?thesis by (simp add: is_printable_def is_path_char_def)
  qed
  then show "is_printable c" "is_path_char c" "c \<noteq> CHR '':''" "c \<noteq> CHR ''/''" "c \<noteq> CHR ''?''" "c \<noteq> CHR ''#''"
    by simp_all
qed

lemma is_path_char_props:
  assumes "is_path_char c"
  shows "is_printable c" "c \<noteq> CHR ''?''" "c \<noteq> CHR ''#''"
  using assms by (auto simp: is_path_char_def)

lemma digit10_alnum: "is_digit_in 10 c \<Longrightarrow> is_alnum c"
  by (auto simp: is_digit_in_def digit_val_def is_alnum_def Let_def split: if_splits)

lemma lower_not_upper: "\<not> is_upper_ascii (lower_char c)"
proof (cases "is_upper_ascii c")
  case True
  then have "(of_char (lower_char c) :: nat) = of_char c + 32" "65 \<le> (of_char c :: nat)"
    by (simp_all add: of_char_lower is_upper_ascii_def)
  then show ?thesis unfolding is_upper_ascii_def[of "lower_char c"] by simp
next
  case False
  then show ?thesis by (simp add: lower_char_not_upper)
qed

lemma lower_char_idem: "lower_char (lower_char c) = lower_char c"
  by (rule lower_char_not_upper[OF lower_not_upper])

lemma toLowerCase_idem: "toLowerCase (toLowerCase s) = toLowerCase s"
  by (simp add: toLowerCase_def lower_char_idem)

lemma lower_char_eq_special:
  "lower_char c = CHR ''.'' \<longleftrightarrow> c = CHR ''.''" "lower_char c = CHR ''-'' \<longleftrightarrow> c = CHR ''-''"
proof -
  show "lower_char c = CHR ''.'' \<longleftrightarrow> c = CHR ''.''"
  proof (cases "is_upper_ascii c")
    case True
    then have "(of_char (lower_char c) :: nat) \<noteq> 46" "(of_char c :: nat) \<noteq> 46"
      unfolding of_char_lower by (simp_all add: is_upper_ascii_def)
    then show ?thesis by auto
  next
    case False then show ?thesis by (simp add: lower_char_not_upper)
  qed
  show "lower_char c = CHR ''-'' \<longleftrightarrow> c = CHR ''-''"
  proof (cases "is_upper_ascii c")
    case True
    then have "(of_char (lower_char c) :: nat) \<noteq> 45" "(of_char c :: nat) \<noteq> 45"
      unfolding of_char_lower by (simp_all add: is_upper_ascii_def)
    then show ?thesis by auto
  next
    case False then show ?thesis by (simp add: lower_char_not_upper)
  qed
qed

lemma is_host_char_lower: "is_host_char (lower_char c) = is_host_char c"
  by (simp add: is_host_char_def is_alnum_lower lower_char_eq_special)

subsection \<open>Cutting at a delimiter\<close>

lemma cut_at_none: "c \<notin> set s \<Longrightarrow> cut_at c s = (s, None)"
  by (induction s) (auto simp: cut_at_def)

lemma cut_at_app: "c \<notin> set a \<Longrightarrow> cut_at c (a @ c # r) = (a, Some r)"
  by (induction a) (auto simp: cut_at_def)

lemma cut_at_opt:
  "c \<notin> set a \<Longrightarrow> cut_at c (a @ (case r of None \<Rightarrow> [] | Some x \<Rightarrow> c # x)) = (a, r)"
  by (cases r) (simp_all add: cut_at_none cut_at_app)

lemma cut_at_join:
  "cut_at c s = (a, r) \<Longrightarrow> s = a @ (case r of None \<Rightarrow> [] | Some x \<Rightarrow> c # x) \<and> c \<notin> set a"
proof -
  assume h: "cut_at c s = (a, r)"
  have a: "a = takeWhile (\<lambda>x. x \<noteq> c) s" using h by (simp add: cut_at_def)
  have "c \<notin> set a" unfolding a by (auto dest: set_takeWhileD)
  moreover have "s = a @ (case r of None \<Rightarrow> [] | Some x \<Rightarrow> c # x)"
  proof (cases "dropWhile (\<lambda>x. x \<noteq> c) s")
    case Nil
    with h have "r = None" by (simp add: cut_at_def)
    moreover have "s = a @ dropWhile (\<lambda>x. x \<noteq> c) s" unfolding a by simp
    ultimately show ?thesis unfolding Nil by simp
  next
    case (Cons y ys)
    with h have r: "r = Some ys" by (simp add: cut_at_def)
    have "y = c" using Cons hd_dropWhile[of "\<lambda>x. x \<noteq> c" s] by auto
    moreover have "s = a @ dropWhile (\<lambda>x. x \<noteq> c) s" unfolding a by simp
    ultimately show ?thesis unfolding Cons r by simp
  qed
  ultimately show ?thesis by simp
qed

lemma list_all_set: "list_all P xs \<longleftrightarrow> (\<forall>x\<in>set xs. P x)"
  by (simp add: list_all_iff)

lemma toLowerCase_alnum:
  assumes "list_all is_alnum (toLowerCase s)" shows "list_all is_alnum s"
  using assms by (simp add: toLowerCase_def list_all_set is_alnum_lower)

lemma scheme_alnum:
  assumes "toLowerCase sch = ''http'' \<or> toLowerCase sch = ''https''"
  shows "list_all is_alnum sch"
proof -
  have "list_all is_alnum ''http''" "list_all is_alnum ''https''"
    by (simp_all add: is_alnum_def)
  with assms have "list_all is_alnum (toLowerCase sch)" by auto
  then show ?thesis by (rule toLowerCase_alnum)
qed

lemma delims_not_alnum:
  "\<not> is_alnum CHR ''#''" "\<not> is_alnum CHR ''?''" "\<not> is_alnum CHR '':''" "\<not> is_alnum CHR ''/''"
  by (simp_all add: is_alnum_def)

lemma delims_not_host_char:
  "\<not> is_host_char CHR ''#''" "\<not> is_host_char CHR ''?''" "\<not> is_host_char CHR '':''"
  "\<not> is_host_char CHR ''/''"
  by (simp_all add: is_host_char_def is_alnum_def)

lemma delims_not_path_char: "\<not> is_path_char CHR ''#''" "\<not> is_path_char CHR ''?''"
  by (simp_all add: is_path_char_def)

lemma takeWhile_app_stop:
  "\<forall>x\<in>set a. P x \<Longrightarrow> (r = [] \<or> \<not> P (hd r)) \<Longrightarrow> takeWhile P (a @ r) = a"
  by (cases r) (simp_all add: takeWhile_append2 takeWhile_eq_all_conv)

lemma dropWhile_app_stop:
  "\<forall>x\<in>set a. P x \<Longrightarrow> (r = [] \<or> \<not> P (hd r)) \<Longrightarrow> dropWhile P (a @ r) = r"
  by (cases r) (simp_all add: dropWhile_append2)

lemma parseURL_compose:
  assumes ok: "url_parts_ok sch h portText pathText qry frag"
  shows "parseURL (compose_url sch h portText pathText qry frag) =
     (case parse_port (toLowerCase sch) portText of
        None \<Rightarrow> None
      | Some p \<Rightarrow> Some \<lparr>u_scheme = toLowerCase sch, u_host = toLowerCase h, u_port = p,
                        u_path = parse_path pathText,
                        u_query = map_option (percent_encode in_query_encode_set) qry,
                        u_fragment = map_option (percent_encode in_fragment_encode_set) frag\<rparr>)"
proof -
  define pp where "pp = (case portText of None \<Rightarrow> [] | Some ds \<Rightarrow> CHR '':'' # ds)"
  define qq where "qq = (case qry of None \<Rightarrow> [] | Some q \<Rightarrow> CHR ''?'' # q)"
  define ff where "ff = (case frag of None \<Rightarrow> [] | Some f \<Rightarrow> CHR ''#'' # f)"
  define auth where "auth = h @ pp"
  define main where "main = sch @ '':'' @ ''//'' @ auth @ pathText"
  have sch: "toLowerCase sch = ''http'' \<or> toLowerCase sch = ''https''"
    and hok: "host_ok h"
    and pth: "pathText = [] \<or> hd pathText = CHR ''/''" "list_all is_path_char pathText"
    using ok by (simp_all add: url_parts_ok_def)
  have port: "\<And>ds. portText = Some ds \<Longrightarrow> list_all (is_digit_in 10) ds"
    using ok by (simp add: url_parts_ok_def)
  have q: "\<And>x. qry = Some x \<Longrightarrow> list_all is_printable x \<and> CHR ''#'' \<notin> set x"
    and qm: "query_in_model (percent_encode in_query_encode_set (case qry of None \<Rightarrow> [] | Some q \<Rightarrow> q))"
    and f: "\<And>x. frag = Some x \<Longrightarrow> list_all is_printable x"
    using ok by (auto simp: url_parts_ok_def query_in_model_def parse_urlencoded_def percent_encode_def
        split: option.splits)
  have sa: "\<forall>c\<in>set sch. is_alnum c" using scheme_alnum[OF sch] by (simp add: list_all_set)
  have ha: "\<forall>c\<in>set h. is_host_char c" using hok by (simp add: host_ok_def list_all_set)
  have pa: "\<forall>c\<in>set pp. is_alnum c \<or> c = CHR '':''"
    using port digit10_alnum by (auto simp: pp_def list_all_set split: option.splits)
  have pta: "\<forall>c\<in>set pathText. is_path_char c" using pth(2) by (simp add: list_all_set)
  have printable_main: "\<forall>c\<in>set main. is_printable c"
    using sa ha pa pta is_alnum_props(1) is_host_char_props(1) is_path_char_props(1)
    by (auto simp: main_def auth_def is_printable_def)
  have all_printable: "list_all is_printable (compose_url sch h portText pathText qry frag)"
  proof -
    have "compose_url sch h portText pathText qry frag = main @ qq @ ff"
      by (simp add: compose_url_def main_def auth_def pp_def qq_def ff_def)
    moreover have "\<forall>c\<in>set qq. is_printable c" using q
      by (auto simp: qq_def list_all_set is_printable_def split: option.splits)
    moreover have "\<forall>c\<in>set ff. is_printable c" using f
      by (auto simp: ff_def list_all_set is_printable_def split: option.splits)
    ultimately show ?thesis using printable_main by (auto simp: list_all_set)
  qed
  have no_hash_main: "CHR ''#'' \<notin> set main"
    using sa ha pa pta delims_not_alnum delims_not_host_char delims_not_path_char
    by (auto simp: main_def auth_def)
  have no_q_main: "CHR ''?'' \<notin> set main"
    using sa ha pa pta delims_not_alnum delims_not_host_char delims_not_path_char
    by (auto simp: main_def auth_def)
  have no_hash_q: "CHR ''#'' \<notin> set qq" using q by (auto simp: qq_def split: option.splits)
  have c1: "cut_at CHR ''#'' (compose_url sch h portText pathText qry frag) = (main @ qq, frag)"
  proof -
    have "compose_url sch h portText pathText qry frag
        = (main @ qq) @ (case frag of None \<Rightarrow> [] | Some x \<Rightarrow> CHR ''#'' # x)"
      by (simp add: compose_url_def main_def auth_def pp_def qq_def)
    moreover have "CHR ''#'' \<notin> set (main @ qq)" using no_hash_main no_hash_q by simp
    ultimately show ?thesis using cut_at_opt by metis
  qed
  have c2: "cut_at CHR ''?'' (main @ qq) = (main, qry)"
    unfolding qq_def by (rule cut_at_opt[OF no_q_main])
  have c3: "cut_at CHR '':'' main = (sch, Some (''//'' @ auth @ pathText))"
  proof -
    have "CHR '':'' \<notin> set sch" using sa delims_not_alnum by auto
    from cut_at_app[OF this] show ?thesis by (simp add: main_def)
  qed
  have nsl: "\<forall>c\<in>set auth. c \<noteq> CHR ''/''"
    using ha pa delims_not_alnum delims_not_host_char by (auto simp: auth_def)
  have tw: "takeWhile (\<lambda>c. c \<noteq> CHR ''/'') (auth @ pathText) = auth"
    using takeWhile_app_stop[of auth "\<lambda>c. c \<noteq> CHR ''/''" pathText] nsl pth(1) by auto
  have dw: "dropWhile (\<lambda>c. c \<noteq> CHR ''/'') (auth @ pathText) = pathText"
    using dropWhile_app_stop[of auth "\<lambda>c. c \<noteq> CHR ''/''" pathText] nsl pth(1) by auto
  have c4: "cut_at CHR '':'' auth = (h, portText)"
  proof -
    have "CHR '':'' \<notin> set h" using ha delims_not_host_char by auto
    from cut_at_opt[OF this] show ?thesis by (simp add: auth_def pp_def)
  qed
  show ?thesis
    using all_printable sch hok pth(2) qm
    by (simp add: parseURL_def c1 c2 c3 tw dw c4 Let_def split: option.splits)
qed

lemma digits_value_nonneg: "0 \<le> digits_value r ds"
proof -
  have "0 \<le> a \<Longrightarrow> 0 \<le> foldl (\<lambda>acc c. acc * int r + int (the (digit_val c))) a ds" for a
    by (induction ds arbitrary: a) simp_all
  then show ?thesis by (simp add: digits_value_def)
qed

lemma int_to_string_inj_at:
  assumes "0 \<le> n" "int_to_string n = s" shows "n = digits_value 10 s"
  using assms digits_value_dec[of n] by (simp add: int_to_string_nonneg)

lemma parse_port_ok:
  assumes "case portText of None \<Rightarrow> True
          | Some ds \<Rightarrow> list_all (is_digit_in 10) ds \<and> digits_value 10 ds \<le> 65535"
  shows "parse_port sch portText =
     Some (case portText of None \<Rightarrow> None
           | Some ds \<Rightarrow> if ds = [] \<or> digits_value 10 ds = default_port sch then None
                        else Some (digits_value 10 ds))"
  using assms by (auto simp: parse_port_def split: option.splits)

lemma serialize_nonempty: "l \<noteq> [] \<Longrightarrow> serialize_urlencoded l \<noteq> []"
proof -
  assume "l \<noteq> []"
  then obtain n v r where l: "l = (n, v) # r" by (cases l) auto
  show ?thesis unfolding l serialize_urlencoded_def by (cases r) simp_all
qed

lemma serialize_empty_iff: "serialize_urlencoded l = [] \<longleftrightarrow> l = []"
  using serialize_nonempty by (auto simp: serialize_urlencoded_def)

lemma percent_encode_Nil: "percent_encode P [] = []"
  by (simp add: percent_encode_def)

lemma default_port_not_string:
  assumes "sch = ''http'' \<or> sch = ''https''" "0 \<le> n" "n \<noteq> default_port sch"
  shows "Some (int_to_string n) \<noteq> DEFAULT_PORTS (sch @ '':'')"
proof
  assume e: "Some (int_to_string n) = DEFAULT_PORTS (sch @ '':'')"
  show False
  proof (cases "sch = ''http''")
    case True
    with e have "int_to_string n = ''80''" by (simp add: DEFAULT_PORTS_def)
    from int_to_string_inj_at[OF assms(2) this] have "n = 80"
      by (simp add: digits_value_def digit_val_def)
    with True assms(3) show False by (simp add: default_port_def)
  next
    case False
    with assms(1) have h: "sch = ''https''" by simp
    with e have "int_to_string n = ''443''" by (simp add: DEFAULT_PORTS_def)
    from int_to_string_inj_at[OF assms(2) this] have "n = 443"
      by (simp add: digits_value_def digit_val_def)
    with h assms(3) show False by (simp add: default_port_def)
  qed
qed

lemma normalizeUrl_compose:
  assumes ok: "url_parts_ok sch h portText pathText qry frag"
  shows "normalizeUrl model_URL (compose_url sch h portText pathText qry frag)
       = Inr (normalized_form_spec sch h portText pathText qry)"
proof -
  define lsch where "lsch = toLowerCase sch"
  define p where "p = (case portText of None \<Rightarrow> None
           | Some ds \<Rightarrow> if ds = [] \<or> digits_value 10 ds = default_port lsch then None
                        else Some (digits_value 10 ds))"
  define segs where "segs = parse_path pathText"
  define pathn where "pathn = concat (map (\<lambda>seg. CHR ''/'' # seg) segs)"
  define l where "l = sorted_params_spec qry"
  define parsed0 where "parsed0 = \<lparr>u_scheme = lsch, u_host = toLowerCase h, u_port = p,
                        u_path = segs,
                        u_query = map_option (percent_encode in_query_encode_set) qry,
                        u_fragment = map_option (percent_encode in_fragment_encode_set) frag\<rparr>"
  have sch: "lsch = ''http'' \<or> lsch = ''https''"
    using ok by (simp add: url_parts_ok_def lsch_def)
  have pp: "parse_port lsch portText = Some p"
    unfolding p_def using ok by (intro parse_port_ok) (simp add: url_parts_ok_def)
  have parse: "parseURL (compose_url sch h portText pathText qry frag) = Some parsed0"
    using parseURL_compose[OF ok] pp by (simp add: parsed0_def lsch_def segs_def)
  have pnn: "\<And>n. p = Some n \<Longrightarrow> 0 \<le> n \<and> n \<noteq> default_port lsch"
    using digits_value_nonneg by (auto simp: p_def split: option.splits if_splits)
  have nodef: "Some (get_port (parsed0\<lparr>u_fragment := None\<rparr>))
        \<noteq> DEFAULT_PORTS (get_protocol (parsed0\<lparr>u_fragment := None\<rparr>))"
  proof (cases p)
    case None
    then show ?thesis using sch by (auto simp: get_port_def get_protocol_def parsed0_def DEFAULT_PORTS_def)
  next
    case (Some n)
    from default_port_not_string[OF sch] pnn[OF Some] Some show ?thesis
      by (simp add: get_port_def get_protocol_def parsed0_def)
  qed
  have qq: "(case map_option (percent_encode in_query_encode_set) qry of None \<Rightarrow> [] | Some q \<Rightarrow> q)
      = percent_encode in_query_encode_set (case qry of None \<Rightarrow> [] | Some q \<Rightarrow> q)"
    by (cases qry) (simp_all add: percent_encode_Nil)
  define parsed3 where "parsed3 = parsed0\<lparr>u_fragment := None,
       u_query := (if serialize_urlencoded l = [] then None else Some (serialize_urlencoded l))\<rparr>"
  have sort: "searchParams_sort (parsed0\<lparr>u_fragment := None\<rparr>) = parsed3"
    by (cases qry)
       (simp_all add: searchParams_sort_def parsed3_def parsed0_def l_def sorted_params_spec_def
          Let_def percent_encode_Nil)
  have norm: "normalizeUrl model_URL (compose_url sch h portText pathText qry frag)
      = Inr (if get_pathname parsed3 = ''/'' \<and> get_search parsed3 = []
             then strip_trailing_slash (href parsed3) else href parsed3)"
    unfolding normalizeUrl_model parse using nodef by (simp add: Let_def sort)
  define pre where "pre = lsch @ ''://'' @ toLowerCase h
       @ (case p of None \<Rightarrow> [] | Some n \<Rightarrow> CHR '':'' # int_to_string n)"
  have gp: "get_pathname parsed3 = pathn"
    by (simp add: get_pathname_def parsed3_def parsed0_def pathn_def)
  have gs: "get_search parsed3 = [] \<longleftrightarrow> l = []"
    by (simp add: get_search_def parsed3_def serialize_empty_iff)
  have hr: "href parsed3 = pre @ pathn @ (if l = [] then [] else CHR ''?'' # serialize_urlencoded l)"
    by (simp add: href_def parsed3_def parsed0_def pre_def get_pathname_def pathn_def serialize_empty_iff)
  have strip: "strip_trailing_slash (pre @ ''/'') = pre"
    by (simp add: strip_trailing_slash_def)
  have spec: "normalized_form_spec sch h portText pathText qry
      = pre @ (if l = [] then (if pathn = ''/'' then [] else pathn)
               else pathn @ CHR ''?'' # serialize_urlencoded l)"
    by (auto simp: normalized_form_spec_def pre_def lsch_def p_def Let_def pathn_def segs_def l_def
        split: option.splits)
  show ?thesis unfolding norm gp gs hr spec using strip by auto
qed

lemma parse_port_Some:
  assumes "parse_port sch pt = Some p"
  shows "case pt of None \<Rightarrow> True
         | Some ds \<Rightarrow> list_all (is_digit_in 10) ds \<and> digits_value 10 ds \<le> 65535"
  using assms by (auto simp: parse_port_def digits_value_def split: option.splits if_splits)

lemma parseURL_decompose:
  assumes "parseURL url = Some p"
  shows "\<exists>sch h portText pathText qry frag.
           url_parts_ok sch h portText pathText qry frag
           \<and> url = compose_url sch h portText pathText qry frag"
proof -
  have pr: "list_all is_printable url"
    using assms by (auto simp: parseURL_def split: if_splits)
  obtain bf frag where c1: "cut_at CHR ''#'' url = (bf, frag)" by (cases "cut_at CHR ''#'' url")
  obtain main qry where c2: "cut_at CHR ''?'' bf = (main, qry)" by (cases "cut_at CHR ''?'' bf")
  obtain sch ro where c3: "cut_at CHR '':'' main = (sch, ro)" by (cases "cut_at CHR '':'' main")
  from assms pr c1 c2 c3 obtain rest where ro: "ro = Some rest"
    by (cases ro) (auto simp: parseURL_def)
  define authority where "authority = takeWhile (\<lambda>c. c \<noteq> CHR ''/'') (drop 2 rest)"
  define pathText where "pathText = dropWhile (\<lambda>c. c \<noteq> CHR ''/'') (drop 2 rest)"
  obtain h portText where c4: "cut_at CHR '':'' authority = (h, portText)"
    by (cases "cut_at CHR '':'' authority")
  from assms pr c1 c2 c3 ro c4
  have facts: "toLowerCase sch = ''http'' \<or> toLowerCase sch = ''https''" "take 2 rest = ''//''"
    "host_ok h" "list_all is_path_char pathText"
    "query_in_model (percent_encode in_query_encode_set (case qry of None \<Rightarrow> [] | Some q \<Rightarrow> q))"
    "\<exists>pp. parse_port (toLowerCase sch) portText = Some pp"
    by (auto simp: parseURL_def Let_def authority_def[symmetric] pathText_def[symmetric]
        split: if_splits option.splits)
  from facts(6) obtain pp where "parse_port (toLowerCase sch) portText = Some pp" by blast
  note port = parse_port_Some[OF this]
  have j1: "url = bf @ (case frag of None \<Rightarrow> [] | Some x \<Rightarrow> CHR ''#'' # x)" "CHR ''#'' \<notin> set bf"
    using cut_at_join[OF c1] by simp_all
  have j2: "bf = main @ (case qry of None \<Rightarrow> [] | Some x \<Rightarrow> CHR ''?'' # x)"
    using cut_at_join[OF c2] by simp
  have j3: "main = sch @ CHR '':'' # rest"
    using cut_at_join[OF c3] ro by simp
  have j4: "authority = h @ (case portText of None \<Rightarrow> [] | Some x \<Rightarrow> CHR '':'' # x)"
    using cut_at_join[OF c4] by simp
  have r2: "rest = ''//'' @ drop 2 rest"
    using facts(2) append_take_drop_id[of 2 rest] by metis
  have ap: "drop 2 rest = authority @ pathText"
    by (simp add: authority_def pathText_def)
  have ph: "pathText = [] \<or> hd pathText = CHR ''/''"
    using hd_dropWhile[of "\<lambda>c. c \<noteq> CHR ''/''" "drop 2 rest"] by (auto simp: pathText_def)
  have url: "url = compose_url sch h portText pathText qry frag"
    unfolding compose_url_def
    apply (subst j1(1), subst j2, subst j3, subst r2, subst ap, subst j4)
    apply simp
    done
  have qp: "\<And>q. qry = Some q \<Longrightarrow> list_all is_printable q \<and> CHR ''#'' \<notin> set q"
  proof -
    fix q assume q: "qry = Some q"
    have "set q \<subseteq> set bf" using j2 q by auto
    moreover have "set bf \<subseteq> set url" using j1(1) by (metis set_append sup_ge1)
    ultimately show "list_all is_printable q \<and> CHR ''#'' \<notin> set q"
      using pr j1(2) by (auto simp: list_all_set)
  qed
  have fp: "\<And>f. frag = Some f \<Longrightarrow> list_all is_printable f"
  proof -
    fix f assume f: "frag = Some f"
    have "set f \<subseteq> set url" by (subst j1(1)) (auto simp: f)
    then show "list_all is_printable f" using pr by (auto simp: list_all_set)
  qed
  have "url_parts_ok sch h portText pathText qry frag"
    unfolding url_parts_ok_def using facts(1,3,4,5) port ph qp fp
    by (auto split: option.splits)
  with url show ?thesis by blast
qed

subsection \<open>Form encoding round trip\<close>

lemma nibbles: "(of_char c :: nat) div 16 < 16" "(of_char c :: nat) mod 16 < 16"
proof -
  have "(of_char c :: nat) < 256" by (rule nat_of_char_less_256)
  then show "(of_char c :: nat) div 16 < 16" by arith
  show "(of_char c :: nat) mod 16 < 16" by simp
qed

lemma percent_decode_cons:
  assumes "c \<noteq> CHR ''%''" shows "percent_decode (c # r) = c # percent_decode r"
proof (cases r)
  case Nil then show ?thesis by simp
next
  case (Cons a r')
  then show ?thesis using assms by (cases r') simp_all
qed

lemma hex_digit_upper_val: "d < 16 \<Longrightarrow> digit_val (hex_digit_upper d) = Some d"
  by (auto simp: hex_digit_upper_def digit_val_def Let_def)

lemma hex_digit_upper_alnum: "d < 16 \<Longrightarrow> is_alnum (hex_digit_upper d)"
  by (auto simp: hex_digit_upper_def is_alnum_def Let_def)

lemma percent_decode_encoded:
  "percent_decode (percent_encode_char c @ r) = c # percent_decode r"
proof -
  have lt: "(of_char c :: nat) div 16 < 16" "(of_char c :: nat) mod 16 < 16"
    by (rule nibbles)+
  have "char_of ((of_char c :: nat) div 16 * 16 + (of_char c :: nat) mod 16) = c"
    by simp
  then show ?thesis
    using lt by (simp add: percent_encode_char_def hex_digit_upper_val is_digit_in_def)
qed

lemma form_safe_props:
  assumes "is_form_safe c"
  shows "c \<noteq> CHR ''%''" "c \<noteq> CHR ''+''"
  using assms by (auto simp: is_form_safe_def is_alnum_def Let_def)

lemma form_char_props:
  assumes "form_char c"
  shows "c \<noteq> CHR ''&''" "c \<noteq> CHR ''=''" "c \<noteq> CHR ''#''" "\<not> in_query_encode_set c" "is_printable c"
  using assms
  by (auto simp: form_char_def is_form_safe_def is_alnum_def Let_def in_query_encode_set_def
      is_printable_def)

lemma form_encode_chars: "c \<in> set (form_encode s) \<Longrightarrow> form_char c"
proof -
  assume "c \<in> set (form_encode s)"
  then have "\<exists>x\<in>set s. c \<in> set (if is_form_safe x then [x] else if x = CHR 0x20 then ''+''
                                     else percent_encode_char x)"
    unfolding form_encode_def set_concat set_map by blast
  then obtain x where x: "x \<in> set s"
    "c \<in> set (if is_form_safe x then [x] else if x = CHR 0x20 then ''+'' else percent_encode_char x)"
    by blast
  have lt: "(of_char x :: nat) div 16 < 16" "(of_char x :: nat) mod 16 < 16"
    by (rule nibbles)+
  from x(2) show "form_char c"
    using hex_digit_upper_alnum[OF lt(1)] hex_digit_upper_alnum[OF lt(2)]
    by (auto simp: form_char_def percent_encode_char_def is_form_safe_def split: if_splits)
qed

lemma form_decode_encode: "form_decode (form_encode s) = s"
proof -
  define g where "g = (\<lambda>c. if is_form_safe c then [c] else if c = CHR 0x20 then [CHR 0x20]
                           else percent_encode_char c)"
  define f where "f = (\<lambda>c. if c = CHR ''+'' then CHR 0x20 else c)"
  have lt: "(of_char x :: nat) div 16 < 16" "(of_char x :: nat) mod 16 < 16" for x
    by (rule nibbles)+
  have hexplus: "hex_digit_upper d \<noteq> CHR ''+''" if "d < 16" for d
    using hex_digit_upper_alnum[OF that] by (auto simp: is_alnum_def)
  have fe: "map f (if is_form_safe c then [c] else if c = CHR 0x20 then ''+'' else percent_encode_char c) = g c" for c
    using form_safe_props(2)[of c] hexplus[OF lt(1)[of c]] hexplus[OF lt(2)[of c]]
    by (auto simp: f_def g_def percent_encode_char_def)
  have m: "map f (form_encode s) = concat (map g s)"
    by (simp add: form_encode_def map_concat comp_def fe)
  have "percent_decode (concat (map g s)) = s"
  proof (induction s)
    case Nil then show ?case by simp
  next
    case (Cons c s)
    show ?case
    proof (cases "is_form_safe c")
      case True
      with Cons form_safe_props(1)[OF True] show ?thesis by (simp add: g_def percent_decode_cons)
    next
      case False
      show ?thesis
      proof (cases "c = CHR 0x20")
        case True
        with False Cons show ?thesis by (simp add: g_def percent_decode_cons)
      next
        case nsp: False
        with False Cons show ?thesis by (simp add: g_def percent_decode_encoded)
      qed
    qed
  qed
  then show ?thesis by (simp add: form_decode_def m f_def[symmetric])
qed

subsection \<open>Splitting a joined list\<close>

lemma js_split_join:
  assumes "xs \<noteq> []" "\<forall>x\<in>set xs. c \<notin> set x"
  shows "js_split [c] (js_join [c] xs) = xs"
  using assms
proof (induction xs rule: induct_list012)
  case 1 then show ?case by simp
next
  case (2 x) then show ?case by (simp add: js_split_char_none)
next
  case (3 x y zs)
  then show ?case by (simp add: js_split_char_app)
qed

lemma js_split_elems:
  "x \<in> set (js_split [c] s) \<Longrightarrow> c \<notin> set x \<and> set x \<subseteq> set s"
proof (induction s arbitrary: x)
  case Nil then show ?case by simp
next
  case (Cons a s)
  show ?case
  proof (cases "a = c")
    case True
    with Cons show ?thesis by (auto simp: Let_def)
  next
    case False
    obtain r rs where r: "js_split [c] s = r # rs"
      using js_split_nonempty[of "[c]" s] by (cases "js_split [c] s") auto
    with Cons.prems False have "x = a # r \<or> x \<in> set rs" by (auto simp: Let_def)
    with Cons.IH[of r] Cons.IH[of x] r False show ?thesis by auto
  qed
qed

subsection \<open>URLSearchParams round trip\<close>

lemma parse_serialize: "parse_urlencoded (serialize_urlencoded l) = l"
proof (cases "l = []")
  case True
  then show ?thesis by (simp add: parse_urlencoded_def serialize_urlencoded_def)
next
  case False
  define item where "item = (\<lambda>(n, v). form_encode n @ ''='' @ form_encode v)"
  have noamp: "\<forall>x\<in>set (map item l). CHR ''&'' \<notin> set x"
    using form_encode_chars form_char_props(1) by (fastforce simp: item_def)
  have ne: "\<forall>x\<in>set (map item l). x \<noteq> []" by (auto simp: item_def)
  have sp: "js_split ''&'' (js_join ''&'' (map item l)) = map item l"
    using js_split_join[of "map item l" "CHR ''&''"] False noamp by simp
  have cut: "cut_at CHR ''='' (item (n, v)) = (form_encode n, Some (form_encode v))" for n v
  proof -
    have "CHR ''='' \<notin> set (form_encode n)" using form_encode_chars form_char_props(2) by blast
    from cut_at_app[OF this] show ?thesis by (simp add: item_def)
  qed
  have "map (\<lambda>seq. case cut_at CHR ''='' seq of
                   (name, None) \<Rightarrow> (form_decode name, [])
                 | (name, Some v) \<Rightarrow> (form_decode name, form_decode v)) (map item l) = l"
    by (induction l) (auto simp: cut form_decode_encode)
  moreover have "filter (\<lambda>seq. seq \<noteq> []) (map item l) = map item l"
    using ne by (simp add: filter_id_conv)
  ultimately show ?thesis
    unfolding parse_urlencoded_def serialize_urlencoded_def item_def[symmetric] sp by simp
qed

lemma serialize_chars:
  assumes "c \<in> set (serialize_urlencoded l)"
  shows "form_char c \<or> c = CHR ''='' \<or> c = CHR ''&''"
  using assms unfolding serialize_urlencoded_def
proof (induction l rule: induct_list012)
  case 1 then show ?case by simp
next
  case (2 x) then show ?case using form_encode_chars by (auto split: prod.splits)
next
  case (3 x y zs)
  then show ?case using form_encode_chars by (auto split: prod.splits)
qed

lemma percent_encode_id: "\<forall>c\<in>set s. \<not> P c \<Longrightarrow> percent_encode P s = s"
  by (induction s) (simp_all add: percent_encode_def)

lemma serialize_query_safe:
  "percent_encode in_query_encode_set (serialize_urlencoded l) = serialize_urlencoded l"
  "list_all is_printable (serialize_urlencoded l)"
  "CHR ''#'' \<notin> set (serialize_urlencoded l)"
proof -
  have a: "\<forall>c\<in>set (serialize_urlencoded l). \<not> in_query_encode_set c \<and> is_printable c \<and> c \<noteq> CHR ''#''"
  proof
    fix c assume "c \<in> set (serialize_urlencoded l)"
    from serialize_chars[OF this] form_char_props[of c]
    show "\<not> in_query_encode_set c \<and> is_printable c \<and> c \<noteq> CHR ''#''"
      by (auto simp: in_query_encode_set_def is_printable_def)
  qed
  then show "percent_encode in_query_encode_set (serialize_urlencoded l) = serialize_urlencoded l"
    by (intro percent_encode_id) blast
  from a show "list_all is_printable (serialize_urlencoded l)" by (simp add: list_all_set)
  from a show "CHR ''#'' \<notin> set (serialize_urlencoded l)" by blast
qed

lemma sort_key_twice: "sort_key f (sort_key f xs) = sort_key f xs"
  by (rule sort_key_id_if_sorted) simp

subsection \<open>Paths\<close>

lemma empty_seg_plain: "seg_plain []"
  by (simp add: seg_plain_def seg_ok_def is_single_dot_def is_double_dot_def toLowerCase_def)

lemma path_state_plain:
  assumes "\<forall>s\<in>set out. seg_plain s" "\<forall>s\<in>set segs. seg_ok s" "segs \<noteq> []"
  shows "(\<forall>s\<in>set (path_state out segs). seg_plain s) \<and> path_state out segs \<noteq> []"
  using assms
proof (induction out segs rule: path_state.induct)
  case (1 out) then show ?case by simp
next
  case (2 out seg)
  then show ?case using empty_seg_plain
    by (auto simp: seg_plain_def dest: in_set_butlastD)
next
  case (3 out seg v va)
  have b: "\<forall>s\<in>set (butlast out). seg_plain s" using 3(4) by (auto dest: in_set_butlastD)
  show ?case
  proof (cases "is_double_dot seg")
    case True
    with 3(1)[OF True b] 3(5) show ?thesis by simp
  next
    case nd: False
    show ?thesis
    proof (cases "is_single_dot seg")
      case True
      with 3(2)[OF nd True 3(4)] 3(5) nd show ?thesis by simp
    next
      case False
      have "\<forall>s\<in>set (out @ [seg]). seg_plain s"
        using 3(4,5) nd False by (auto simp: seg_plain_def)
      with 3(3)[OF nd False this] 3(5) nd False show ?thesis by simp
    qed
  qed
qed

lemma path_state_id:
  assumes "\<forall>s\<in>set segs. \<not> is_single_dot s \<and> \<not> is_double_dot s"
  shows "path_state out segs = out @ segs"
  using assms by (induction out segs rule: path_state.induct) simp_all

lemma parse_path_plain:
  assumes "list_all is_path_char p"
  shows "(\<forall>s\<in>set (parse_path p). seg_plain s) \<and> parse_path p \<noteq> []"
proof -
  have "\<forall>s\<in>set (if p = [] then [[]] else js_split ''/'' (tl p)). seg_ok s"
  proof (cases "p = []")
    case True then show ?thesis by (simp add: seg_ok_def)
  next
    case False
    have "set (tl p) \<subseteq> set p" by (cases p) auto
    with assms have "\<forall>c\<in>set (tl p). is_path_char c" by (auto simp: list_all_set)
    with js_split_elems[of _ "CHR ''/''" "tl p"] False show ?thesis
      by (auto simp: seg_ok_def list_all_set)
  qed
  moreover have "(if p = [] then [[]] else js_split ''/'' (tl p)) \<noteq> []"
    using js_split_nonempty by simp
  ultimately show ?thesis unfolding parse_path_def by (intro path_state_plain) simp_all
qed

lemma tl_concat_slash:
  "segs \<noteq> [] \<Longrightarrow> tl (concat (map (\<lambda>seg. CHR ''/'' # seg) segs)) = js_join ''/'' segs"
  by (induction segs rule: induct_list012) simp_all

lemma parse_path_pathname:
  assumes "\<forall>s\<in>set segs. seg_plain s" "segs \<noteq> []"
  shows "parse_path (concat (map (\<lambda>seg. CHR ''/'' # seg) segs)) = segs"
proof -
  have ne: "concat (map (\<lambda>seg. CHR ''/'' # seg) segs) \<noteq> []" using assms(2) by (cases segs) auto
  have "js_split ''/'' (js_join ''/'' segs) = segs"
    using js_split_join[of segs "CHR ''/''"] assms by (auto simp: seg_plain_def seg_ok_def)
  then show ?thesis
    unfolding parse_path_def using ne assms(1)
    by (simp add: tl_concat_slash[OF assms(2)] path_state_id seg_plain_def)
qed

lemma pathname_chars:
  assumes "\<forall>s\<in>set segs. seg_plain s"
  shows "list_all is_path_char (concat (map (\<lambda>seg. CHR ''/'' # seg) segs))"
proof -
  have "is_path_char CHR ''/''" by (simp add: is_path_char_def is_printable_def)
  with assms show ?thesis by (auto simp: list_all_set seg_plain_def seg_ok_def)
qed

lemma pathname_root: 
  assumes "concat (map (\<lambda>seg. CHR ''/'' # seg) segs) = ''/''"
  shows "segs = [[]]"
proof (cases segs)
  case Nil with assms show ?thesis by simp
next
  case (Cons s r)
  with assms have "s = []" "concat (map (\<lambda>seg. CHR ''/'' # seg) r) = []" by simp_all
  then have "r = []" by (cases r) simp_all
  with Cons \<open>s = []\<close> show ?thesis by simp
qed

subsection \<open>Hosts\<close>

lemma js_split_map:
  assumes "\<And>x. f x = c \<longleftrightarrow> x = c"
  shows "js_split [c] (map f s) = map (map f) (js_split [c] s)"
proof (induction s)
  case Nil then show ?case by simp
next
  case (Cons a s)
  obtain r rs where r: "js_split [c] s = r # rs"
    using js_split_nonempty[of "[c]" s] by (cases "js_split [c] s") auto
  show ?case using Cons r assms[of a] by (auto simp: Let_def)
qed

lemma host_ok_lower:
  assumes "host_ok h" shows "host_ok (toLowerCase h)"
proof -
  define labels where "labels = js_split ''.'' h"
  have ln: "labels \<noteq> []" unfolding labels_def by (rule js_split_nonempty)
  have sp: "js_split ''.'' (toLowerCase h) = map toLowerCase labels"
    unfolding toLowerCase_def labels_def
    using js_split_map[of lower_char "CHR ''.''" h] lower_char_eq_special(1)
    by (simp add: toLowerCase_def[abs_def])
  from assms have a: "h \<noteq> []" "list_all is_host_char h"
    "list_all (\<lambda>l. l \<noteq> [] \<and> take 4 (toLowerCase l) \<noteq> ''xn--'') labels"
    "\<not> is_digit_in 10 (hd (last labels))"
    by (simp_all add: host_ok_def labels_def Let_def)
  have lne: "last labels \<noteq> []" using a(3) ln by (auto simp: list_all_set)
  have "hd (last (map toLowerCase labels)) = lower_char (hd (last labels))"
    using ln lne by (simp add: last_map toLowerCase_def hd_map)
  then have d: "\<not> is_digit_in 10 (hd (last (map toLowerCase labels)))"
    using a(4) by (simp add: is_digit_in_lower)
  have l: "list_all (\<lambda>l. l \<noteq> [] \<and> take 4 (toLowerCase l) \<noteq> ''xn--'') (map toLowerCase labels)"
    using a(3) by (auto simp: list_all_set toLowerCase_idem) (simp add: toLowerCase_def)
  have c: "list_all is_host_char (toLowerCase h)"
    using a(2) by (simp add: list_all_set toLowerCase_def is_host_char_lower)
  have n: "toLowerCase h \<noteq> []" using a(1) by (simp add: toLowerCase_def)
  show ?thesis unfolding host_ok_def sp Let_def using n c l d by simp
qed

lemma parse_urlencoded_Nil: "parse_urlencoded [] = []"
  by (simp add: parse_urlencoded_def)

lemma sorted_params_sorted: "sort_key fst (sorted_params_spec q) = sorted_params_spec q"
  by (simp add: sorted_params_spec_def sort_key_twice)

lemma dec_digits_digits: "0 \<le> n \<Longrightarrow> list_all (is_digit_in 10) (dec_digits n)"
  using dec_digits_all is_digit_digit_char by (fastforce simp: list_all_set)

lemma normalized_form_reparse:
  assumes ok: "url_parts_ok sch h portText pathText qry frag"
  shows "\<exists>sch' h' portText' pathText' qry'.
           url_parts_ok sch' h' portText' pathText' qry' None
           \<and> normalized_form_spec sch h portText pathText qry
               = compose_url sch' h' portText' pathText' qry' None
           \<and> normalized_form_spec sch' h' portText' pathText' qry'
               = normalized_form_spec sch h portText pathText qry"
proof -
  define sch' where "sch' = toLowerCase sch"
  define h' where "h' = toLowerCase h"
  define pt' where "pt' = (case portText of None \<Rightarrow> None
      | Some ds \<Rightarrow> if ds = [] \<or> digits_value 10 ds = default_port sch' then None
                   else Some (int_to_string (digits_value 10 ds)))"
  define segs where "segs = parse_path pathText"
  define pathn where "pathn = concat (map (\<lambda>seg. CHR ''/'' # seg) segs)"
  define l where "l = sorted_params_spec qry"
  define pth' where "pth' = (if l = [] \<and> pathn = ''/'' then [] else pathn)"
  define q' where "q' = (if l = [] then None else Some (serialize_urlencoded l))"
  have sch: "sch' = ''http'' \<or> sch' = ''https''" and hok: "host_ok h"
    and pc: "list_all is_path_char pathText"
    and port: "\<And>ds. portText = Some ds \<Longrightarrow> digits_value 10 ds \<le> 65535"
    and qm: "query_in_model (percent_encode in_query_encode_set (case qry of None \<Rightarrow> [] | Some q \<Rightarrow> q))"
    using ok by (auto simp: url_parts_ok_def sch'_def percent_encode_Nil query_in_model_def
        parse_urlencoded_Nil split: option.splits)
  have lsch: "toLowerCase sch' = sch'" and lh: "toLowerCase h' = h'"
    by (simp_all add: sch'_def h'_def toLowerCase_idem)
  from parse_path_plain[OF pc] have plain: "\<forall>s\<in>set segs. seg_plain s" and sne: "segs \<noteq> []"
    by (simp_all add: segs_def)
  \<comment> \<open>the normal form is the text of the primed parts\<close>
  have eq: "normalized_form_spec sch h portText pathText qry = compose_url sch' h' pt' pth' q' None"
    by (auto simp: normalized_form_spec_def compose_url_def sch'_def h'_def pt'_def pth'_def q'_def
        Let_def l_def pathn_def segs_def split: option.splits)
  \<comment> \<open>the primed parts are parts of a valid URL\<close>
  have p1: "case pt' of None \<Rightarrow> True
            | Some ds \<Rightarrow> list_all (is_digit_in 10) ds \<and> digits_value 10 ds \<le> 65535"
    using port digits_value_nonneg[of 10]
    by (auto simp: pt'_def int_to_string_nonneg dec_digits_digits digits_value_dec
        split: option.splits)
  have p2: "pth' = [] \<or> hd pth' = CHR ''/''"
    using sne by (cases segs) (auto simp: pth'_def pathn_def)
  have p3: "list_all is_path_char pth'"
    using pathname_chars[OF plain] by (simp add: pth'_def pathn_def)
  have lall: "list_all (\<lambda>(n, v). list_all is_ascii n \<and> list_all is_ascii v) l"
    using qm by (simp add: l_def sorted_params_spec_def query_in_model_def list_all_set)
  have p4: "case q' of None \<Rightarrow> True
            | Some q \<Rightarrow> list_all is_printable q \<and> CHR ''#'' \<notin> set q
                       \<and> query_in_model (percent_encode in_query_encode_set q)"
    using serialize_query_safe[of l] lall
    by (simp add: q'_def query_in_model_def parse_serialize)
  have ok': "url_parts_ok sch' h' pt' pth' q' None"
    unfolding url_parts_ok_def using sch lsch host_ok_lower[OF hok] p1 p2 p3 p4
    by (simp add: h'_def)
  \<comment> \<open>and their normal form is the same text\<close>
  have pp: "parse_path pth' = segs"
  proof (cases "l = [] \<and> pathn = ''/''")
    case True
    then have "segs = [[]]" using pathname_root[of segs] by (simp add: pathn_def)
    with True show ?thesis
      by (simp add: pth'_def parse_path_def is_single_dot_def is_double_dot_def toLowerCase_def)
  next
    case False
    then have "pth' = pathn" by (auto simp: pth'_def)
    then show ?thesis using parse_path_pathname[OF plain sne] by (simp add: pathn_def)
  qed
  have sp: "sorted_params_spec q' = l"
  proof (cases "l = []")
    case True
    then show ?thesis by (simp add: q'_def sorted_params_spec_def percent_encode_Nil parse_urlencoded_Nil)
  next
    case False
    have "sort_key fst l = l" unfolding l_def by (rule sorted_params_sorted)
    with False show ?thesis
      by (simp add: q'_def sorted_params_spec_def serialize_query_safe(1) parse_serialize)
  qed
  have port': "(case pt' of None \<Rightarrow> []
        | Some ds \<Rightarrow> if ds = [] \<or> digits_value 10 ds = default_port (toLowerCase sch') then []
                     else CHR '':'' # int_to_string (digits_value 10 ds))
      = (case portText of None \<Rightarrow> []
        | Some ds \<Rightarrow> if ds = [] \<or> digits_value 10 ds = default_port (toLowerCase sch) then []
                     else CHR '':'' # int_to_string (digits_value 10 ds))"
  proof (cases portText)
    case None
    then show ?thesis by (simp add: pt'_def)
  next
    case (Some ds)
    define v where "v = digits_value 10 ds"
    have v0: "0 \<le> v" unfolding v_def by (rule digits_value_nonneg)
    have rhs: "(case portText of None \<Rightarrow> []
        | Some ds \<Rightarrow> if ds = [] \<or> digits_value 10 ds = default_port (toLowerCase sch) then []
                     else CHR '':'' # int_to_string (digits_value 10 ds))
       = (if ds = [] \<or> v = default_port sch' then [] else CHR '':'' # int_to_string v)"
      unfolding Some v_def sch'_def by simp
    have lhs: "(case pt' of None \<Rightarrow> []
        | Some ds \<Rightarrow> if ds = [] \<or> digits_value 10 ds = default_port (toLowerCase sch') then []
                     else CHR '':'' # int_to_string (digits_value 10 ds))
       = (if ds = [] \<or> v = default_port sch' then [] else CHR '':'' # int_to_string v)"
    proof (cases "ds = [] \<or> v = default_port sch'")
      case True
      then have "pt' = None" using Some by (auto simp: pt'_def v_def)
      with True show ?thesis by simp
    next
      case False
      then have pt: "pt' = Some (dec_digits v)"
        using Some v0 by (simp add: pt'_def v_def int_to_string_nonneg)
      have "digits_value 10 (dec_digits v) = v" using v0 by (rule digits_value_dec)
      with False dec_digits_nonempty[of v] show ?thesis
        unfolding pt lsch by simp
    qed
    show ?thesis unfolding lhs rhs ..
  qed
  have same: "normalized_form_spec sch' h' pt' pth' q' = normalized_form_spec sch h portText pathText qry"
    unfolding normalized_form_spec_def port'
    by (simp add: pp sp lh lsch) (simp add: sch'_def h'_def segs_def l_def Let_def)
  from ok' eq same show ?thesis by blast
qed

lemma normalizeUrl_idempotent:
  assumes "normalizeUrl model_URL url = Inr n"
  shows "normalizeUrl model_URL n = Inr n"
proof -
  from assms obtain p where "parseURL url = Some p"
    by (auto simp: normalizeUrl_model split: option.splits)
  from parseURL_decompose[OF this] obtain sch h portText pathText qry frag where
    ok: "url_parts_ok sch h portText pathText qry frag"
    and url: "url = compose_url sch h portText pathText qry frag" by blast
  from assms have n: "n = normalized_form_spec sch h portText pathText qry"
    unfolding url normalizeUrl_compose[OF ok] by simp
  from normalized_form_reparse[OF ok] obtain sch' h' pt' pth' q' where
    ok': "url_parts_ok sch' h' pt' pth' q' None"
    and eq: "normalized_form_spec sch h portText pathText qry = compose_url sch' h' pt' pth' q' None"
    and same: "normalized_form_spec sch' h' pt' pth' q' = normalized_form_spec sch h portText pathText qry"
    by blast
  show ?thesis unfolding n eq normalizeUrl_compose[OF ok'] same[unfolded eq] ..
qed

lemma normalizeUrl_reparses:
  assumes "normalizeUrl model_URL url = Inr n"
  shows "\<exists>p. parseURL n = Some p"
  using normalizeUrl_idempotent[OF assms] by (auto simp: normalizeUrl_model split: option.splits)

subsection \<open>Examples\<close>

lemma normalizeUrl_examples:
  "normalizeUrl model_URL ''HTTPS://Example.COM:443/path?b=2&a=1#frag'' = Inr ''https://example.com/path?a=1&b=2''"
  "normalizeUrl model_URL ''https://example.com/'' = Inr ''https://example.com''"
  "normalizeUrl model_URL ''https://example.com/blog/'' = Inr ''https://example.com/blog/''"
  by code_simp+

lemma sorted_params_spec_sorted: "sorted (map fst (sorted_params_spec qry))"
  by (simp add: sorted_params_spec_def)


section \<open>normalizeUrl on any URL class\<close>

lemma normalizeUrl_object:
  "normalizeUrl W url =
     (case new_URL W url of
        None \<Rightarrow> Inl TypeError
      | Some p \<Rightarrow>
          Inr (if url_pathname W (normalized_object W p) = ''/''
                  \<and> url_search W (normalized_object W p) = []
               then strip_trailing_slash (url_href W (normalized_object W p))
               else url_href W (normalized_object W p)))"
  by (simp add: normalizeUrl_def normalized_object_def Let_def split: option.splits)

lemma normalizeUrl_Inl: "(normalizeUrl W url = Inl e) = (new_URL W url = None \<and> e = TypeError)"
  by (auto simp: normalizeUrl_object split: option.splits)

lemma normalizeUrl_Inr:
  "(\<exists>n. normalizeUrl W url = Inr n) = (\<exists>p. new_URL W url = Some p)"
  by (auto simp: normalizeUrl_object split: option.splits)

lemma extractDomain_Inr:
  "(\<exists>d. extractDomain W url = Inr d) = (\<exists>p. new_URL W url = Some p)"
  by (auto simp: extractDomain_def split: option.splits)

lemma isFetchableUrl_parsed: "isFetchableUrl W url \<Longrightarrow> \<exists>p. new_URL W url = Some p"
  by (auto simp: isFetchableUrl_def split: option.splits)

lemma DEFAULT_PORTS_not_empty: "DEFAULT_PORTS proto \<noteq> Some []"
  by (simp add: DEFAULT_PORTS_def)

lemma normalized_object_in:
  assumes "p \<in> URL_objects W"
  shows "normalized_object W p \<in> URL_objects W"
  using assms
  by (auto simp: normalized_object_def Let_def intro: URL_objects.intros)

lemma normalized_object_settled:
  assumes c: "changes_commute W" and g: "getters_framed W" and p: "p \<in> URL_objects W"
  shows "settled W (normalized_object W p)"
proof -
  let ?a = "set_hash_empty W p"
  let ?b = "if Some (url_port W ?a) = DEFAULT_PORTS (url_protocol W ?a) then set_port_empty W ?a else ?a"
  have a: "?a \<in> URL_objects W" using p by (rule URL_objects.hash_cleared)
  have b: "?b \<in> URL_objects W" using a by (auto intro: URL_objects.port_cleared)
  have n: "normalized_object W p = url_searchParams_sort W ?b"
    by (simp add: normalized_object_def Let_def)
  have aa: "set_hash_empty W ?a = ?a" using c p by (simp add: changes_commute_def)
  have "set_hash_empty W (set_port_empty W ?a) = set_port_empty W (set_hash_empty W ?a)"
    using c a by (simp add: changes_commute_def)
  with aa have hb: "set_hash_empty W ?b = ?b" by simp
  have "set_hash_empty W (url_searchParams_sort W ?b) = url_searchParams_sort W (set_hash_empty W ?b)"
    using c b unfolding changes_commute_def by blast
  with hb have h: "set_hash_empty W (url_searchParams_sort W ?b) = url_searchParams_sort W ?b" by simp
  have s: "url_searchParams_sort W (url_searchParams_sort W ?b) = url_searchParams_sort W ?b"
    using c b unfolding changes_commute_def by blast
  have fp: "url_port W (url_searchParams_sort W ?b) = url_port W ?b"
    and fs: "url_protocol W (url_searchParams_sort W ?b) = url_protocol W ?b"
    using g b unfolding getters_framed_def by blast+
  have pa: "url_port W (set_port_empty W ?a) = []"
    using g a unfolding getters_framed_def by blast
  have "Some (url_port W ?b) \<noteq> DEFAULT_PORTS (url_protocol W ?b)"
    using pa DEFAULT_PORTS_not_empty [of "url_protocol W (set_port_empty W ?a)"] by auto
  with fp fs have d: "Some (url_port W (url_searchParams_sort W ?b))
                        \<noteq> DEFAULT_PORTS (url_protocol W (url_searchParams_sort W ?b))" by simp
  from h s d show ?thesis unfolding n settled_def by simp
qed

lemma settled_fixed: "settled W q \<Longrightarrow> normalized_object W q = q"
  by (simp add: settled_def normalized_object_def Let_def)

lemma normalizeUrl_settled:
  assumes "new_URL W s = Some q" and "settled W q"
  shows "normalizeUrl W s =
           Inr (if url_pathname W q = ''/'' \<and> url_search W q = []
                then strip_trailing_slash (url_href W q) else url_href W q)"
  using assms by (simp add: normalizeUrl_object settled_fixed)

lemma normalizeUrl_idempotent_on:
  assumes laws: "whatwg_laws W" and n: "normalizeUrl W u = Inr n"
  shows "normalizeUrl W n = Inr n"
proof -
  from laws have r: "reparses W" and c: "changes_commute W" and g: "getters_framed W"
    and so: "slash_optional W" by (simp_all add: whatwg_laws_def)
  from n obtain p where p: "new_URL W u = Some p"
    by (auto simp: normalizeUrl_object split: option.splits)
  let ?q = "normalized_object W p"
  have po: "p \<in> URL_objects W" using p by (rule URL_objects.constructed)
  have qo: "?q \<in> URL_objects W" using po by (rule normalized_object_in)
  have st: "settled W ?q" using c g po by (rule normalized_object_settled)
  have rq: "new_URL W (url_href W ?q) = Some ?q" using r qo by (simp add: reparses_def)
  show ?thesis
  proof (cases "url_pathname W ?q = ''/'' \<and> url_search W ?q = []")
    case False
    with n p have "n = url_href W ?q" by (auto simp: normalizeUrl_object)
    with normalizeUrl_settled [OF rq st] False show ?thesis by simp
  next
    case True
    with n p have nn: "n = strip_trailing_slash (url_href W ?q)" by (auto simp: normalizeUrl_object)
    from so qo True st obtain v where v: "new_URL W (strip_trailing_slash (url_href W ?q)) = Some v"
      and d: "v = ?q \<or> (url_href W v = strip_trailing_slash (url_href W ?q)
                      \<and> url_pathname W v \<noteq> ''/'' \<and> settled W v)"
      unfolding slash_optional_def by blast
    from d show ?thesis
    proof
      assume "v = ?q"
      with v st True nn show ?thesis by (simp add: normalizeUrl_settled)
    next
      assume a: "url_href W v = strip_trailing_slash (url_href W ?q)
                      \<and> url_pathname W v \<noteq> ''/'' \<and> settled W v"
      with v nn have "normalizeUrl W n = Inr (url_href W v)" by (simp add: normalizeUrl_settled)
      with a nn show ?thesis by simp
    qed
  qed
qed

lemma normalizeUrl_reparses_on:
  assumes "whatwg_laws W" and "normalizeUrl W u = Inr n"
  shows "\<exists>p. new_URL W n = Some p"
  using normalizeUrl_idempotent_on [OF assms] by (auto simp: normalizeUrl_object split: option.splits)

section \<open>The URL class of the fragment meets the laws\<close>

lemma percent_encode_char_chars:
  "c \<in> set (percent_encode_char x) \<Longrightarrow> c = CHR ''%'' \<or> is_alnum c"
proof -
  have "(of_char x :: nat) div 16 < 16" using nibbles by simp
  moreover have "(of_char x :: nat) mod 16 < 16" by simp
  ultimately show "c \<in> set (percent_encode_char x) \<Longrightarrow> c = CHR ''%'' \<or> is_alnum c"
    using hex_digit_upper_alnum by (auto simp: percent_encode_char_def)
qed

lemma percent_encode_chars:
  assumes "c \<in> set (percent_encode P s)"
  shows "(c \<in> set s \<and> \<not> P c) \<or> c = CHR ''%'' \<or> is_alnum c"
  using assms percent_encode_char_chars
  by (auto simp: percent_encode_def split: if_splits)

lemma query_set_props:
  "\<not> in_query_encode_set CHR ''%''" "is_alnum c \<Longrightarrow> \<not> in_query_encode_set c"
  "\<not> in_fragment_encode_set CHR ''%''" "is_alnum c \<Longrightarrow> \<not> in_fragment_encode_set c"
  "is_printable CHR ''%''" "CHR ''%'' \<noteq> CHR ''#''"
  by (auto simp: in_query_encode_set_def in_fragment_encode_set_def is_alnum_def is_printable_def Let_def)

lemma percent_encode_query_wf:
  assumes "list_all is_printable q" "CHR ''#'' \<notin> set q"
  shows "list_all is_printable (percent_encode in_query_encode_set q)"
    and "CHR ''#'' \<notin> set (percent_encode in_query_encode_set q)"
    and "\<not> list_ex in_query_encode_set (percent_encode in_query_encode_set q)"
proof -
  show "list_all is_printable (percent_encode in_query_encode_set q)"
    unfolding list_all_set
  proof
    fix c assume "c \<in> set (percent_encode in_query_encode_set q)"
    from percent_encode_chars [OF this] assms(1) show "is_printable c"
      using is_alnum_props(1) query_set_props(5) by (auto simp: list_all_set)
  qed
  show "CHR ''#'' \<notin> set (percent_encode in_query_encode_set q)"
  proof
    assume "CHR ''#'' \<in> set (percent_encode in_query_encode_set q)"
    from percent_encode_chars [OF this] assms(2) show False
      using delims_not_alnum(1) by auto
  qed
  show "\<not> list_ex in_query_encode_set (percent_encode in_query_encode_set q)"
    unfolding list_ex_iff
  proof
    assume "\<exists>c\<in>set (percent_encode in_query_encode_set q). in_query_encode_set c"
    then obtain c where c: "c \<in> set (percent_encode in_query_encode_set q)" "in_query_encode_set c"
      by blast
    from percent_encode_chars [OF c(1)] c(2) show False
      using query_set_props(1,2) by auto
  qed
qed

lemma percent_encode_fragment_wf:
  assumes "list_all is_printable f"
  shows "list_all is_printable (percent_encode in_fragment_encode_set f)"
    and "\<not> list_ex in_fragment_encode_set (percent_encode in_fragment_encode_set f)"
proof -
  show "list_all is_printable (percent_encode in_fragment_encode_set f)"
    unfolding list_all_set
  proof
    fix c assume "c \<in> set (percent_encode in_fragment_encode_set f)"
    from percent_encode_chars [OF this] assms(1) show "is_printable c"
      using is_alnum_props(1) query_set_props(5) by (auto simp: list_all_set)
  qed
  show "\<not> list_ex in_fragment_encode_set (percent_encode in_fragment_encode_set f)"
    unfolding list_ex_iff
  proof
    assume "\<exists>c\<in>set (percent_encode in_fragment_encode_set f). in_fragment_encode_set c"
    then obtain c where c: "c \<in> set (percent_encode in_fragment_encode_set f)"
      "in_fragment_encode_set c" by blast
    from percent_encode_chars [OF c(1)] c(2) show False
      using query_set_props(3,4) by auto
  qed
qed

lemma wf_URL_I:
  assumes "sch = ''http'' \<or> sch = ''https''" "host_ok h" "toLowerCase h = h"
      and "\<And>n. p = Some n \<Longrightarrow> 0 \<le> n \<and> n \<le> 65535 \<and> n \<noteq> default_port sch"
      and "segs \<noteq> []" "list_all seg_plain segs"
      and "\<And>q. qry = Some q \<Longrightarrow> list_all is_printable q \<and> CHR ''#'' \<notin> set q
                     \<and> \<not> list_ex in_query_encode_set q \<and> query_in_model q"
      and "\<And>f. frag = Some f \<Longrightarrow> list_all is_printable f \<and> \<not> list_ex in_fragment_encode_set f"
  shows "wf_URL \<lparr>u_scheme = sch, u_host = h, u_port = p, u_path = segs, u_query = qry,
                 u_fragment = frag\<rparr>"
  using assms by (simp add: wf_URL_def split: option.splits)

lemma wf_URL_D:
  assumes "wf_URL u"
  shows "u_scheme u = ''http'' \<or> u_scheme u = ''https''" "host_ok (u_host u)"
    "toLowerCase (u_host u) = u_host u"
    "\<And>n. u_port u = Some n \<Longrightarrow> 0 \<le> n \<and> n \<le> 65535 \<and> n \<noteq> default_port (u_scheme u)"
    "u_path u \<noteq> []" "list_all seg_plain (u_path u)"
    "\<And>q. u_query u = Some q \<Longrightarrow> list_all is_printable q \<and> CHR ''#'' \<notin> set q
                     \<and> \<not> list_ex in_query_encode_set q \<and> query_in_model q"
    "\<And>f. u_fragment u = Some f \<Longrightarrow> list_all is_printable f \<and> \<not> list_ex in_fragment_encode_set f"
  using assms by (simp_all add: wf_URL_def split: option.splits)

lemma parseURL_wf:
  assumes "parseURL s = Some r"
  shows "wf_URL r"
proof -
  from parseURL_decompose [OF assms] obtain sch h portText pathText qry frag where
    ok: "url_parts_ok sch h portText pathText qry frag"
    and s: "s = compose_url sch h portText pathText qry frag" by blast
  from ok have sch: "toLowerCase sch = ''http'' \<or> toLowerCase sch = ''https''"
    and hok: "host_ok h"
    and pt: "case portText of None \<Rightarrow> True
          | Some ds \<Rightarrow> list_all (is_digit_in 10) ds \<and> digits_value 10 ds \<le> 65535"
    and pth: "list_all is_path_char pathText"
    and q: "case qry of None \<Rightarrow> True
          | Some q \<Rightarrow> list_all is_printable q \<and> CHR ''#'' \<notin> set q
                     \<and> query_in_model (percent_encode in_query_encode_set q)"
    and f: "case frag of None \<Rightarrow> True | Some f \<Rightarrow> list_all is_printable f"
    by (simp_all add: url_parts_ok_def)
  let ?p = "case portText of None \<Rightarrow> None
           | Some ds \<Rightarrow> if ds = [] \<or> digits_value 10 ds = default_port (toLowerCase sch) then None
                        else Some (digits_value 10 ds)"
  from parseURL_compose [OF ok] assms s parse_port_ok [OF pt, of "toLowerCase sch"]
  have r: "r = \<lparr>u_scheme = toLowerCase sch, u_host = toLowerCase h, u_port = ?p,
                u_path = parse_path pathText,
                u_query = map_option (percent_encode in_query_encode_set) qry,
                u_fragment = map_option (percent_encode in_fragment_encode_set) frag\<rparr>"
    by simp
  show ?thesis
    unfolding r
  proof (rule wf_URL_I)
    show "toLowerCase sch = ''http'' \<or> toLowerCase sch = ''https''" by (rule sch)
    show "host_ok (toLowerCase h)" using hok by (rule host_ok_lower)
    show "toLowerCase (toLowerCase h) = toLowerCase h" by (rule toLowerCase_idem)
    show "\<And>n. ?p = Some n \<Longrightarrow> 0 \<le> n \<and> n \<le> 65535 \<and> n \<noteq> default_port (toLowerCase sch)"
      using pt digits_value_nonneg [of 10] by (auto split: option.splits if_splits)
    show "parse_path pathText \<noteq> []" "list_all seg_plain (parse_path pathText)"
      using parse_path_plain [OF pth] by (simp_all add: list_all_set)
    show "\<And>x. map_option (percent_encode in_query_encode_set) qry = Some x
          \<Longrightarrow> list_all is_printable x \<and> CHR ''#'' \<notin> set x
                     \<and> \<not> list_ex in_query_encode_set x \<and> query_in_model x"
      using q percent_encode_query_wf by (auto split: option.splits)
    show "\<And>x. map_option (percent_encode in_fragment_encode_set) frag = Some x
          \<Longrightarrow> list_all is_printable x \<and> \<not> list_ex in_fragment_encode_set x"
      using f percent_encode_fragment_wf by (auto split: option.splits)
  qed
qed

lemma href_compose:
  "href u = compose_url (u_scheme u) (u_host u) (map_option int_to_string (u_port u))
              (get_pathname u) (u_query u) (u_fragment u)"
  by (simp add: href_def compose_url_def split: option.splits)

lemma toLowerCase_http: "toLowerCase ''http'' = ''http''" "toLowerCase ''https'' = ''https''"
  by code_simp+

lemma wf_parts_ok:
  assumes wf: "wf_URL u"
  shows "url_parts_ok (u_scheme u) (u_host u) (map_option int_to_string (u_port u))
              (get_pathname u) (u_query u) (u_fragment u)"
proof -
  note d = wf_URL_D [OF wf]
  have sch: "toLowerCase (u_scheme u) = ''http'' \<or> toLowerCase (u_scheme u) = ''https''"
    using d(1) toLowerCase_http by auto
  have port: "case map_option int_to_string (u_port u) of None \<Rightarrow> True
          | Some ds \<Rightarrow> list_all (is_digit_in 10) ds \<and> digits_value 10 ds \<le> 65535"
  proof (cases "u_port u")
    case None
    then show ?thesis by simp
  next
    case (Some n)
    with d(4) have n: "0 \<le> n" "n \<le> 65535" by auto
    then have "int_to_string n = dec_digits n" by (simp add: int_to_string_nonneg)
    with n Some show ?thesis by (simp add: dec_digits_digits digits_value_dec)
  qed
  have plain: "\<forall>s\<in>set (u_path u). seg_plain s" using d(6) by (simp add: list_all_set)
  have hd: "get_pathname u = [] \<or> hd (get_pathname u) = CHR ''/''"
    using d(5) by (cases "u_path u") (simp_all add: get_pathname_def)
  have chars: "list_all is_path_char (get_pathname u)"
    unfolding get_pathname_def using plain by (rule pathname_chars)
  have q: "case u_query u of None \<Rightarrow> True
          | Some q \<Rightarrow> list_all is_printable q \<and> CHR ''#'' \<notin> set q
                     \<and> query_in_model (percent_encode in_query_encode_set q)"
  proof (cases "u_query u")
    case None
    then show ?thesis by simp
  next
    case (Some q)
    from d(7) [OF Some] have a: "list_all is_printable q" "CHR ''#'' \<notin> set q"
      "\<not> list_ex in_query_encode_set q" "query_in_model q" by simp_all
    from a(3) have "percent_encode in_query_encode_set q = q"
      by (intro percent_encode_id) (simp add: list_ex_iff)
    with a Some show ?thesis by simp
  qed
  have f: "case u_fragment u of None \<Rightarrow> True | Some f \<Rightarrow> list_all is_printable f"
    using d(8) by (auto split: option.splits)
  show ?thesis
    unfolding url_parts_ok_def using sch d(2) port hd chars q f by simp
qed

lemma parseURL_href:
  assumes wf: "wf_URL u"
  shows "parseURL (href u) = Some u"
proof -
  note d = wf_URL_D [OF wf]
  have sch: "toLowerCase (u_scheme u) = u_scheme u" using d(1) toLowerCase_http by auto
  have port: "parse_port (u_scheme u) (map_option int_to_string (u_port u)) = Some (u_port u)"
  proof (cases "u_port u")
    case None
    then show ?thesis by (simp add: parse_port_def)
  next
    case (Some n)
    with d(4) have n: "0 \<le> n" "n \<le> 65535" "n \<noteq> default_port (u_scheme u)" by auto
    then have s: "int_to_string n = dec_digits n" by (simp add: int_to_string_nonneg)
    have "list_all (is_digit_in 10) (dec_digits n)" using n(1) by (rule dec_digits_digits)
    moreover have "digits_value 10 (dec_digits n) = n" using n(1) by (rule digits_value_dec)
    ultimately show ?thesis
      using Some n s dec_digits_nonempty [of n] by (simp add: parse_port_def)
  qed
  have path: "parse_path (get_pathname u) = u_path u"
    unfolding get_pathname_def
    using d(5,6) by (intro parse_path_pathname) (simp_all add: list_all_set)
  have q: "map_option (percent_encode in_query_encode_set) (u_query u) = u_query u"
  proof (cases "u_query u")
    case None
    then show ?thesis by simp
  next
    case (Some q)
    from d(7) [OF Some] have "\<not> list_ex in_query_encode_set q" by simp
    then have "percent_encode in_query_encode_set q = q"
      by (intro percent_encode_id) (simp add: list_ex_iff)
    with Some show ?thesis by simp
  qed
  have f: "map_option (percent_encode in_fragment_encode_set) (u_fragment u) = u_fragment u"
  proof (cases "u_fragment u")
    case None
    then show ?thesis by simp
  next
    case (Some f)
    from d(8) [OF Some] have "\<not> list_ex in_fragment_encode_set f" by simp
    then have "percent_encode in_fragment_encode_set f = f"
      by (intro percent_encode_id) (simp add: list_ex_iff)
    with Some show ?thesis by simp
  qed
  from parseURL_compose [OF wf_parts_ok [OF wf]]
  have "parseURL (href u) =
          Some \<lparr>u_scheme = u_scheme u, u_host = u_host u, u_port = u_port u,
                 u_path = u_path u, u_query = u_query u, u_fragment = u_fragment u\<rparr>"
    unfolding href_compose [symmetric] sch d(3) port path q f by simp
  then show ?thesis by simp
qed

lemma sorted_query_wf:
  assumes "\<And>q. qry = Some q \<Longrightarrow> query_in_model q"
  shows "list_all is_printable (serialize_urlencoded (sort_key fst (parse_urlencoded (case qry of None \<Rightarrow> [] | Some q \<Rightarrow> q))))
       \<and> CHR ''#'' \<notin> set (serialize_urlencoded (sort_key fst (parse_urlencoded (case qry of None \<Rightarrow> [] | Some q \<Rightarrow> q))))
       \<and> \<not> list_ex in_query_encode_set (serialize_urlencoded (sort_key fst (parse_urlencoded (case qry of None \<Rightarrow> [] | Some q \<Rightarrow> q))))
       \<and> query_in_model (serialize_urlencoded (sort_key fst (parse_urlencoded (case qry of None \<Rightarrow> [] | Some q \<Rightarrow> q))))"
proof -
  let ?l = "sort_key fst (parse_urlencoded (case qry of None \<Rightarrow> [] | Some q \<Rightarrow> q))"
  have m: "query_in_model (case qry of None \<Rightarrow> [] | Some q \<Rightarrow> q)"
    using assms by (cases qry) (simp_all add: query_in_model_def parse_urlencoded_Nil)
  have "\<not> list_ex in_query_encode_set (serialize_urlencoded ?l)"
    unfolding list_ex_iff
  proof
    assume "\<exists>c\<in>set (serialize_urlencoded ?l). in_query_encode_set c"
    then obtain c where c: "c \<in> set (serialize_urlencoded ?l)" "in_query_encode_set c" by blast
    from serialize_chars [OF c(1)] c(2) form_char_props(4) [of c] show False
      by (auto simp: in_query_encode_set_def)
  qed
  moreover have "query_in_model (serialize_urlencoded ?l)"
    using m by (simp add: query_in_model_def parse_serialize list_all_set)
  ultimately show ?thesis using serialize_query_safe(2,3) [of ?l] by simp
qed

lemma searchParams_sort_wf:
  assumes wf: "wf_URL u"
  shows "wf_URL (searchParams_sort u)"
proof -
  note d = wf_URL_D [OF wf]
  have m: "\<And>q. u_query u = Some q \<Longrightarrow> query_in_model q" using d(7) by simp
  note sq = sorted_query_wf [of "u_query u", OF m]
  obtain sch h p segs qry frag where u: "u = \<lparr>u_scheme = sch, u_host = h, u_port = p,
        u_path = segs, u_query = qry, u_fragment = frag\<rparr>" by (cases u) auto
  show ?thesis
    using d sq unfolding u searchParams_sort_def Let_def
    by (auto intro!: wf_URL_I)
qed

lemma URL_objects_wf:
  assumes "u \<in> URL_objects model_URL"
  shows "wf_URL u"
  using assms
proof (induction rule: URL_objects.induct)
  case (constructed s u)
  then show ?case by (simp add: model_URL_simps parseURL_wf)
next
  case (resolved relative base u)
  then show ?case
    by (auto simp: model_URL_simps parseURL_with_base_def parseURL_wf split: option.splits if_splits)
next
  case (hash_cleared u)
  then show ?case by (simp add: model_URL_simps wf_URL_def split: option.splits)
next
  case (port_cleared u)
  then show ?case by (simp add: model_URL_simps wf_URL_def split: option.splits)
next
  case (params_sorted u)
  then show ?case by (simp add: model_URL_simps searchParams_sort_wf)
qed

lemma searchParams_sort_twice: "searchParams_sort (searchParams_sort u) = searchParams_sort u"
proof -
  let ?l = "sort_key fst (parse_urlencoded (case u_query u of None \<Rightarrow> [] | Some q \<Rightarrow> q))"
  have "parse_urlencoded (case (if serialize_urlencoded ?l = [] then None else Some (serialize_urlencoded ?l))
                            of None \<Rightarrow> [] | Some q \<Rightarrow> q) = ?l"
    using serialize_empty_iff [of ?l] by (auto simp: parse_serialize parse_urlencoded_Nil)
  then show ?thesis
    by (simp add: searchParams_sort_def Let_def sort_key_twice)
qed

lemma searchParams_sort_params:
  "get_searchParams (searchParams_sort u) = sort_key fst (get_searchParams u)"
proof -
  let ?l = "sort_key fst (parse_urlencoded (case u_query u of None \<Rightarrow> [] | Some q \<Rightarrow> q))"
  have "parse_urlencoded (case (if serialize_urlencoded ?l = [] then None else Some (serialize_urlencoded ?l))
                            of None \<Rightarrow> [] | Some q \<Rightarrow> q) = ?l"
    using serialize_empty_iff [of ?l] by (auto simp: parse_serialize parse_urlencoded_Nil)
  then show ?thesis
    by (simp add: searchParams_sort_def Let_def get_searchParams_def)
qed

lemma searchParams_sort_search:
  "(get_search (searchParams_sort u) = []) = (get_searchParams u = [])"
proof -
  let ?p = "parse_urlencoded (case u_query u of None \<Rightarrow> [] | Some q \<Rightarrow> q)"
  have "(serialize_urlencoded (sort_key fst ?p) = []) = (?p = [])"
    using serialize_empty_iff [of "sort_key fst ?p"] by (cases ?p) auto
  then show ?thesis
    by (auto simp: searchParams_sort_def Let_def get_search_def get_searchParams_def)
qed

lemma searchParams_sort_fields:
  "u_scheme (searchParams_sort u) = u_scheme u" "u_host (searchParams_sort u) = u_host u"
  "u_port (searchParams_sort u) = u_port u" "u_path (searchParams_sort u) = u_path u"
  "u_fragment (searchParams_sort u) = u_fragment u"
  "searchParams_sort (u\<lparr>u_fragment := f\<rparr>) = (searchParams_sort u)\<lparr>u_fragment := f\<rparr>"
  "searchParams_sort (u\<lparr>u_port := p\<rparr>) = (searchParams_sort u)\<lparr>u_port := p\<rparr>"
  by (simp_all add: searchParams_sort_def Let_def)

lemma code_unit_less:
  "((of_nat (of_char c) :: 16 word) < of_nat (of_char d)) = (c < d)"
proof -
  have "\<And>e :: char. unat (of_nat (of_char e) :: 16 word) = of_char e"
  proof -
    fix e :: char
    have "(of_char e :: nat) < 256" by simp
    also have "(256 :: nat) < 2 ^ 16" by simp
    finally have "(of_char e :: nat) < 2 ^ 16" .
    then show "unat (of_nat (of_char e) :: 16 word) = of_char e"
      by (simp add: unat_of_nat)
  qed
  then show ?thesis by (simp add: word_less_nat_alt less_char_def)
qed

lemma code_unit_eq:
  "((of_nat (of_char c) :: 16 word) = of_nat (of_char d)) = (c = d)"
  using code_unit_less [of c d] code_unit_less [of d c]
  by (metis less_irrefl linorder_neqE)

lemma to_js_less: "(to_js xs < to_js ys) = (xs < ys)"
proof (induction xs arbitrary: ys)
  case Nil
  then show ?case by (cases ys) (simp_all add: to_js_def)
next
  case (Cons x xs)
  show ?case
  proof (cases ys)
    case Nil
    then show ?thesis by (simp add: to_js_def)
  next
    case (Cons y ys')
    with Cons.IH [of ys'] show ?thesis
      by (simp add: to_js_def code_unit_less code_unit_eq)
  qed
qed

lemma to_js_eq: "(to_js xs = to_js ys) = (xs = ys)"
  using to_js_less [of xs ys] to_js_less [of ys xs]
  by (metis less_irrefl linorder_neqE)

lemma to_js_le: "(to_js xs \<le> to_js ys) = (xs \<le> ys)"
  by (simp add: le_less to_js_less to_js_eq)

lemma insort_params_js:
  "insort_key fst (to_js a, to_js b) (params_js l) = params_js (insort_key fst (a, b) l)"
  by (induction l) (auto simp: params_js_def to_js_le)

lemma sort_params_js: "sort_key fst (params_js l) = params_js (sort_key fst l)"
proof (induction l)
  case Nil
  then show ?case by (simp add: params_js_def)
next
  case (Cons p l)
  obtain a b where p: "p = (a, b)" by (cases p)
  have "params_js (p # l) = (to_js a, to_js b) # params_js l" by (simp add: params_js_def p)
  then show ?case using Cons insort_params_js [of a b "sort_key fst l"] by (simp add: p)
qed

lemma params_js_Nil: "(params_js l = []) = (l = [])"
  by (simp add: params_js_def)

lemma model_reparses: "reparses model_URL"
  unfolding reparses_def
  by (auto simp: model_URL_simps dest!: URL_objects_wf intro: parseURL_href)

lemma model_changes_commute: "changes_commute model_URL"
  unfolding changes_commute_def
  by (simp add: model_URL_simps searchParams_sort_twice searchParams_sort_fields)

lemma getters_after_update:
  "get_search (u\<lparr>u_fragment := f\<rparr>) = get_search u"
  "get_search (u\<lparr>u_port := p\<rparr>) = get_search u"
  "get_searchParams (u\<lparr>u_fragment := f\<rparr>) = get_searchParams u"
  "get_searchParams (u\<lparr>u_port := p\<rparr>) = get_searchParams u"
  "get_hash (u\<lparr>u_fragment := None\<rparr>) = []"
  "get_hash (u\<lparr>u_port := p\<rparr>) = get_hash u"
  "get_hash (searchParams_sort u) = get_hash u"
  "get_port (u\<lparr>u_port := None\<rparr>) = []"
  "get_port (u\<lparr>u_fragment := f\<rparr>) = get_port u"
  "get_port (searchParams_sort u) = get_port u"
  "get_protocol (u\<lparr>u_fragment := f\<rparr>) = get_protocol u"
  "get_protocol (u\<lparr>u_port := p\<rparr>) = get_protocol u"
  "get_protocol (searchParams_sort u) = get_protocol u"
  "get_hostname (u\<lparr>u_fragment := f\<rparr>) = get_hostname u"
  "get_hostname (u\<lparr>u_port := p\<rparr>) = get_hostname u"
  "get_hostname (searchParams_sort u) = get_hostname u"
  "get_pathname (u\<lparr>u_fragment := f\<rparr>) = get_pathname u"
  "get_pathname (u\<lparr>u_port := p\<rparr>) = get_pathname u"
  "get_pathname (searchParams_sort u) = get_pathname u"
  by (simp_all add: get_hash_def get_protocol_def get_hostname_def get_port_def get_pathname_def
      get_search_def get_searchParams_def searchParams_sort_fields)

lemma model_getters_framed: "getters_framed model_URL"
  unfolding getters_framed_def
  by (simp add: model_URL_simps searchParams_sort_params searchParams_sort_search
      getters_after_update sort_params_js params_js_Nil)

lemma model_lower_case: "lower_case model_URL"
  unfolding lower_case_def
proof
  fix u assume "u \<in> URL_objects model_URL"
  then have wf: "wf_URL u" by (rule URL_objects_wf)
  note d = wf_URL_D [OF wf]
  have c: "toLowerCase '':'' = '':''" by code_simp
  from d(1) have "toLowerCase (u_scheme u @ '':'') = u_scheme u @ '':''"
    using toLowerCase_http c by (auto simp: toLowerCase_def)
  with d(3) show "url_protocol model_URL u = toLowerCase (url_protocol model_URL u)
        \<and> (url_protocol model_URL u \<in> {''http:'', ''https:''} \<longrightarrow>
             url_hostname model_URL u = toLowerCase (url_hostname model_URL u))"
    by (simp add: model_URL_simps get_protocol_def get_hostname_def)
qed

lemma strip_trailing_slash_snoc: "strip_trailing_slash (s @ ''/'') = s"
  by (simp add: strip_trailing_slash_def)

lemma model_slash_optional: "slash_optional model_URL"
  unfolding slash_optional_def
proof (intro ballI impI)
  fix u
  assume obj: "u \<in> URL_objects model_URL"
     and a: "url_pathname model_URL u = ''/'' \<and> url_search model_URL u = [] \<and> settled model_URL u"
  from obj have wf: "wf_URL u" by (rule URL_objects_wf)
  note d = wf_URL_D [OF wf]
  from a have pn: "get_pathname u = ''/''" and se: "get_search u = []"
    and fr: "u\<lparr>u_fragment := None\<rparr> = u" and so: "searchParams_sort u = u"
    by (simp_all add: model_URL_simps settled_def)
  from fr have f: "u_fragment u = None" by (metis URL.select_convs(6) URL.surjective URL.update_convs(6))
  from pn have path: "u_path u = [[]]" unfolding get_pathname_def by (rule pathname_root)
  from se have "get_searchParams u = []"
    by (auto simp: get_search_def get_searchParams_def parse_urlencoded_Nil split: option.splits if_splits)
  then have "u_query (searchParams_sort u) = None"
    by (simp add: searchParams_sort_def Let_def get_searchParams_def serialize_urlencoded_def js_join.simps)
  with so have q: "u_query u = None" by simp
  let ?base = "compose_url (u_scheme u) (u_host u) (map_option int_to_string (u_port u)) [] None None"
  have h: "href u = ?base @ ''/''"
    unfolding href_compose using pn q f by (simp add: compose_url_def split: option.splits)
  have ok: "url_parts_ok (u_scheme u) (u_host u) (map_option int_to_string (u_port u)) [] None None"
    using wf_parts_ok [OF wf] by (simp add: url_parts_ok_def)
  have sch: "toLowerCase (u_scheme u) = u_scheme u" using d(1) toLowerCase_http by auto
  have port: "parse_port (u_scheme u) (map_option int_to_string (u_port u)) = Some (u_port u)"
  proof (cases "u_port u")
    case None
    then show ?thesis by (simp add: parse_port_def)
  next
    case (Some n)
    with d(4) have n: "0 \<le> n" "n \<le> 65535" "n \<noteq> default_port (u_scheme u)" by auto
    then have s: "int_to_string n = dec_digits n" by (simp add: int_to_string_nonneg)
    have "list_all (is_digit_in 10) (dec_digits n)" using n(1) by (rule dec_digits_digits)
    moreover have "digits_value 10 (dec_digits n) = n" using n(1) by (rule digits_value_dec)
    ultimately show ?thesis
      using Some n s dec_digits_nonempty [of n] by (simp add: parse_port_def)
  qed
  have pp: "parse_path [] = [[]]" by (simp add: parse_path_def)
  from parseURL_compose [OF ok]
  have "parseURL ?base =
          Some \<lparr>u_scheme = u_scheme u, u_host = u_host u, u_port = u_port u,
                 u_path = u_path u, u_query = u_query u, u_fragment = u_fragment u\<rparr>"
    unfolding sch d(3) port pp path q f by simp
  then have "parseURL ?base = Some u" by simp
  then have "new_URL model_URL (strip_trailing_slash (url_href model_URL u)) = Some u"
    by (simp add: model_URL_simps h strip_trailing_slash_snoc)
  then show "\<exists>v. new_URL model_URL (strip_trailing_slash (url_href model_URL u)) = Some v
              \<and> (v = u
                  \<or> (url_href model_URL v = strip_trailing_slash (url_href model_URL u)
                      \<and> url_pathname model_URL v \<noteq> ''/'' \<and> settled model_URL v))"
    by blast
qed

lemma model_laws: "whatwg_laws model_URL"
  unfolding whatwg_laws_def
  using model_reparses model_changes_commute model_getters_framed model_slash_optional by simp

section \<open>The claims about normalizeUrl\<close>

lemma normalized_object_getters:
  assumes g: "getters_framed W" and p: "p \<in> URL_objects W"
  shows "url_hash W (normalized_object W p) = []"
    and "Some (url_port W (normalized_object W p)) \<noteq> DEFAULT_PORTS (url_protocol W (normalized_object W p))"
    and "url_port W (normalized_object W p) = url_port W p
         \<or> (url_port W (normalized_object W p) = []
             \<and> Some (url_port W p) = DEFAULT_PORTS (url_protocol W p))"
    and "url_protocol W (normalized_object W p) = url_protocol W p"
    and "url_hostname W (normalized_object W p) = url_hostname W p"
    and "path_of_segments (url_pathname W p) \<Longrightarrow>
           url_pathname W (normalized_object W p) = url_pathname W p"
    and "url_searchParams W (normalized_object W p) = sort_key fst (url_searchParams W p)"
proof -
  let ?a = "set_hash_empty W p"
  let ?b = "if Some (url_port W ?a) = DEFAULT_PORTS (url_protocol W ?a) then set_port_empty W ?a else ?a"
  have a: "?a \<in> URL_objects W" using p by (rule URL_objects.hash_cleared)
  have b: "?b \<in> URL_objects W" using a by (auto intro: URL_objects.port_cleared)
  have n: "normalized_object W p = url_searchParams_sort W ?b"
    by (simp add: normalized_object_def Let_def)
  note fp = g [unfolded getters_framed_def, rule_format, OF p]
  note fa = g [unfolded getters_framed_def, rule_format, OF a]
  note fb = g [unfolded getters_framed_def, rule_format, OF b]
  have ha: "url_hash W ?a = []" and pa: "url_protocol W ?a = url_protocol W p"
    and hoa: "url_hostname W ?a = url_hostname W p" and poa: "url_port W ?a = url_port W p"
    and spa: "url_searchParams W ?a = url_searchParams W p"
    using fp by simp_all
  have hb: "url_hash W ?b = []" using fa ha by simp
  have pb: "url_protocol W ?b = url_protocol W p" using fa pa by simp
  have hob: "url_hostname W ?b = url_hostname W p" using fa hoa by simp
  have spb: "url_searchParams W ?b = url_searchParams W p" using fa spa by simp
  have "url_port W (set_port_empty W ?a) = []" using fa by simp
  then have pob: "Some (url_port W ?b) \<noteq> DEFAULT_PORTS (url_protocol W ?b)"
    using DEFAULT_PORTS_not_empty [of "url_protocol W (set_port_empty W ?a)"] by auto
  have pob2: "url_port W ?b = url_port W p
         \<or> (url_port W ?b = [] \<and> Some (url_port W p) = DEFAULT_PORTS (url_protocol W p))"
    using fa poa pa by auto
  show "url_hash W (normalized_object W p) = []" unfolding n using fb hb by simp
  show "Some (url_port W (normalized_object W p)) \<noteq> DEFAULT_PORTS (url_protocol W (normalized_object W p))"
    unfolding n using fb pob by simp
  show "url_port W (normalized_object W p) = url_port W p
         \<or> (url_port W (normalized_object W p) = []
             \<and> Some (url_port W p) = DEFAULT_PORTS (url_protocol W p))"
    unfolding n using fb pob2 by simp
  show "url_protocol W (normalized_object W p) = url_protocol W p" unfolding n using fb pb by simp
  show "url_hostname W (normalized_object W p) = url_hostname W p" unfolding n using fb hob by simp
  show "url_searchParams W (normalized_object W p) = sort_key fst (url_searchParams W p)"
    unfolding n using fb spb by simp
  assume seg: "path_of_segments (url_pathname W p)"
  with fp have pna: "url_pathname W ?a = url_pathname W p" by simp
  have pnb: "url_pathname W ?b = url_pathname W p" using fa pna by simp
  show "url_pathname W (normalized_object W p) = url_pathname W p"
    unfolding n using fb pnb seg by simp
qed

lemma opaque_host_examples:
  "normalizeUrl any_scheme_URL ''foo://Example.COM/x'' = Inr ''foo://Example.COM/x''"
  "extractDomain any_scheme_URL ''foo://Example.COM/x'' = Inr ''Example.COM''"
  "normalizeUrl any_scheme_URL ''HTTPS://Example.COM/x'' = Inr ''https://example.com/x''"
  by code_simp+

text \<open>
  Claim C9 says that \<open>normalizeUrl\<close> lower-cases the scheme and the host of every valid
  absolute URL. The source leaves that to the URL class, and the class lower-cases the
  host of a URL with a special scheme only: for \<^verbatim>\<open>foo://Example.COM/x\<close> the host is
  \<^verbatim>\<open>Example.COM\<close> and \<open>normalizeUrl\<close> returns the URL unchanged (first part).

  The rest of the claim holds. For every URL class with the getter laws and the
  lower-casing of the Standard and every URL \<open>url\<close> that the class parses to \<open>p\<close>,
  \<open>normalizeUrl\<close> returns the serialisation of the object \<open>normalized_object W p\<close>, without
  its last slash exactly when the path of that object is \<^verbatim>\<open>/\<close> and it has no query
  parameter. This object has no fragment, no port that is the default of its scheme (80 for
  \<^verbatim>\<open>http\<close>, 443 for \<^verbatim>\<open>https\<close>; otherwise the port of \<open>p\<close>), the protocol and host name
  of \<open>p\<close>, the path of \<open>p\<close> when it is a list of segments, and the parameters of \<open>p\<close>
  sorted by key (by UTF-16 code units), in their order among equal keys; its scheme is in
  lower case, and so is its host when the scheme is \<^verbatim>\<open>http\<close> or \<^verbatim>\<open>https\<close> (second part). For the \<^verbatim>\<open>http\<close> and \<^verbatim>\<open>https\<close> URLs of \<open>model_URL\<close> the text
  returned is \<open>normalized_form_spec\<close> of the parts of the URL (third part), and the three
  examples of the claim evaluate as stated.
\<close>

theorem normalizeUrl_normal_form:
  "normalizeUrl any_scheme_URL ''foo://Example.COM/x'' = Inr ''foo://Example.COM/x''
   \<and> extractDomain any_scheme_URL ''foo://Example.COM/x'' = Inr ''Example.COM''
   \<and> (\<forall>(W :: 'u URL_class) url p.
        getters_framed W \<and> lower_case W \<and> new_URL W url = Some p \<longrightarrow>
          normalizeUrl W url =
            Inr (if url_pathname W (normalized_object W p) = ''/''
                    \<and> url_searchParams W p = []
                 then strip_trailing_slash (url_href W (normalized_object W p))
                 else url_href W (normalized_object W p))
          \<and> url_hash W (normalized_object W p) = []
          \<and> Some (url_port W (normalized_object W p))
               \<noteq> DEFAULT_PORTS (url_protocol W (normalized_object W p))
          \<and> (url_port W (normalized_object W p) = url_port W p
              \<or> (url_port W (normalized_object W p) = []
                  \<and> Some (url_port W p) = DEFAULT_PORTS (url_protocol W p)))
          \<and> url_protocol W (normalized_object W p) = url_protocol W p
          \<and> url_hostname W (normalized_object W p) = url_hostname W p
          \<and> (path_of_segments (url_pathname W p) \<longrightarrow>
                url_pathname W (normalized_object W p) = url_pathname W p)
          \<and> url_searchParams W (normalized_object W p) = sort_key fst (url_searchParams W p)
          \<and> sorted (map fst (url_searchParams W (normalized_object W p)))
          \<and> url_protocol W (normalized_object W p) = toLowerCase (url_protocol W (normalized_object W p))
          \<and> (url_protocol W (normalized_object W p) \<in> {''http:'', ''https:''} \<longrightarrow>
                url_hostname W (normalized_object W p)
                  = toLowerCase (url_hostname W (normalized_object W p))))
   \<and> (\<forall>sch h portText pathText qry frag. url_parts_ok sch h portText pathText qry frag \<longrightarrow>
          normalizeUrl model_URL (compose_url sch h portText pathText qry frag)
            = Inr (normalized_form_spec sch h portText pathText qry))
   \<and> normalizeUrl model_URL ''HTTPS://Example.COM:443/path?b=2&a=1#frag''
        = Inr ''https://example.com/path?a=1&b=2''
   \<and> normalizeUrl model_URL ''https://example.com/'' = Inr ''https://example.com''
   \<and> normalizeUrl model_URL ''https://example.com/blog/'' = Inr ''https://example.com/blog/''"
proof (intro conjI allI impI)
  fix W :: "'u URL_class" and url p
  assume a: "getters_framed W \<and> lower_case W \<and> new_URL W url = Some p"
  then have g: "getters_framed W" and l: "lower_case W" and p: "new_URL W url = Some p" by simp_all
  from p have po: "p \<in> URL_objects W" by (rule URL_objects.constructed)
  let ?q = "normalized_object W p"
  have qo: "?q \<in> URL_objects W" using po by (rule normalized_object_in)
  note f = normalized_object_getters [OF g po]
  let ?a = "set_hash_empty W p"
  let ?b = "if Some (url_port W ?a) = DEFAULT_PORTS (url_protocol W ?a) then set_port_empty W ?a else ?a"
  have ao: "?a \<in> URL_objects W" using po by (rule URL_objects.hash_cleared)
  have bo: "?b \<in> URL_objects W" using ao by (auto intro: URL_objects.port_cleared)
  have n: "?q = url_searchParams_sort W ?b" by (simp add: normalized_object_def Let_def)
  have "url_searchParams W ?b = url_searchParams W p"
    using g [unfolded getters_framed_def, rule_format, OF po]
          g [unfolded getters_framed_def, rule_format, OF ao] by simp
  moreover have "(url_search W (url_searchParams_sort W ?b) = []) = (url_searchParams W ?b = [])"
    using g [unfolded getters_framed_def, rule_format, OF bo] by simp
  ultimately have s: "(url_search W ?q = []) = (url_searchParams W p = [])" unfolding n by simp
  show "normalizeUrl W url =
            Inr (if url_pathname W ?q = ''/'' \<and> url_searchParams W p = []
                 then strip_trailing_slash (url_href W ?q) else url_href W ?q)"
    using p s by (simp add: normalizeUrl_object)
  show "url_hash W ?q = []" by (rule f(1))
  show "Some (url_port W ?q) \<noteq> DEFAULT_PORTS (url_protocol W ?q)" by (rule f(2))
  show "url_port W ?q = url_port W p
              \<or> (url_port W ?q = [] \<and> Some (url_port W p) = DEFAULT_PORTS (url_protocol W p))"
    by (rule f(3))
  show "url_protocol W ?q = url_protocol W p" by (rule f(4))
  show "url_hostname W ?q = url_hostname W p" by (rule f(5))
  show "url_searchParams W ?q = sort_key fst (url_searchParams W p)" by (rule f(7))
  show "sorted (map fst (url_searchParams W ?q))" unfolding f(7) by simp
  from l qo show "url_protocol W ?q = toLowerCase (url_protocol W ?q)"
    unfolding lower_case_def by blast
  {
    assume "url_protocol W ?q \<in> {''http:'', ''https:''}"
    with l qo show "url_hostname W ?q = toLowerCase (url_hostname W ?q)"
      unfolding lower_case_def by blast
  }
  assume "path_of_segments (url_pathname W p)"
  then show "url_pathname W ?q = url_pathname W p" by (rule f(6))
next
  fix sch h portText pathText qry frag
  assume "url_parts_ok sch h portText pathText qry frag"
  then show "normalizeUrl model_URL (compose_url sch h portText pathText qry frag)
            = Inr (normalized_form_spec sch h portText pathText qry)"
    by (rule normalizeUrl_compose)
qed (rule opaque_host_examples normalizeUrl_examples)+

theorem normalizeUrl_normal_form_witness:
  "normalizeUrl model_URL ''HTTP://Docs.Example.com:8080/a/?z=1&b=2#top''
     = Inr ''http://docs.example.com:8080/a/?b=2&z=1''
   \<and> new_URL model_URL ''HTTP://Docs.Example.com:8080/a/?z=1&b=2#top''
       = Some \<lparr>u_scheme = ''http'', u_host = ''docs.example.com'', u_port = Some 8080,
               u_path = [''a'', []], u_query = Some ''z=1&b=2'', u_fragment = Some ''top''\<rparr>
   \<and> url_searchParams model_URL
        (normalized_object model_URL
           \<lparr>u_scheme = ''http'', u_host = ''docs.example.com'', u_port = Some 8080,
             u_path = [''a'', []], u_query = Some ''z=1&b=2'', u_fragment = Some ''top''\<rparr>)
       = params_js [(''b'', ''2''), (''z'', ''1'')]
   \<and> url_hostname model_URL
        (normalized_object model_URL
           \<lparr>u_scheme = ''http'', u_host = ''docs.example.com'', u_port = Some 8080,
             u_path = [''a'', []], u_query = Some ''z=1&b=2'', u_fragment = Some ''top''\<rparr>)
       = ''docs.example.com''"
proof -
  let ?p = "\<lparr>u_scheme = ''http'', u_host = ''docs.example.com'', u_port = Some 8080,
             u_path = [''a'', []], u_query = Some ''z=1&b=2'', u_fragment = Some ''top''\<rparr>"
  have ok: "url_parts_ok ''HTTP'' ''Docs.Example.com'' (Some ''8080'') ''/a/'' (Some ''z=1&b=2'') (Some ''top'')"
    by code_simp
  have c: "compose_url ''HTTP'' ''Docs.Example.com'' (Some ''8080'') ''/a/'' (Some ''z=1&b=2'') (Some ''top'')
      = ''HTTP://Docs.Example.com:8080/a/?z=1&b=2#top''"
    by (simp add: compose_url_def)
  have n: "normalized_form_spec ''HTTP'' ''Docs.Example.com'' (Some ''8080'') ''/a/'' (Some ''z=1&b=2'')
      = ''http://docs.example.com:8080/a/?b=2&z=1''"
    by code_simp
  have p: "new_URL model_URL ''HTTP://Docs.Example.com:8080/a/?z=1&b=2#top'' = Some ?p"
    by code_simp
  have "get_searchParams ?p = [(''z'', ''1''), (''b'', ''2'')]" by code_simp
  then have sp: "url_searchParams model_URL ?p = params_js [(''z'', ''1''), (''b'', ''2'')]"
    by (simp add: model_URL_simps)
  have hn: "url_hostname model_URL ?p = ''docs.example.com''" by code_simp
  have "sort_key fst [(''z'', ''1''), (''b'', ''2'')] = [(''b'', ''2''), (''z'', ''1'')]"
    by code_simp
  then have srt: "sort_key fst (params_js [(''z'', ''1''), (''b'', ''2'')])
                   = params_js [(''b'', ''2''), (''z'', ''1'')]"
    by (simp add: sort_params_js)
  note general = normalizeUrl_normal_form
                   [THEN conjunct2, THEN conjunct2, THEN conjunct1, rule_format,
                    of model_URL "''HTTP://Docs.Example.com:8080/a/?z=1&b=2#top''" ?p]
  note form = normalizeUrl_normal_form
                   [THEN conjunct2, THEN conjunct2, THEN conjunct2, THEN conjunct1, rule_format, OF ok]
  have h: "getters_framed model_URL \<and> lower_case model_URL
           \<and> new_URL model_URL ''HTTP://Docs.Example.com:8080/a/?z=1&b=2#top'' = Some ?p"
    using model_getters_framed model_lower_case p by simp
  from general [OF h] have
    "url_searchParams model_URL (normalized_object model_URL ?p) = sort_key fst (url_searchParams model_URL ?p)"
    and "url_hostname model_URL (normalized_object model_URL ?p) = url_hostname model_URL ?p"
    by simp_all
  with sp hn srt have
    "url_searchParams model_URL (normalized_object model_URL ?p)
       = params_js [(''b'', ''2''), (''z'', ''1'')]"
    "url_hostname model_URL (normalized_object model_URL ?p) = ''docs.example.com''"
    by simp_all
  moreover from form have "normalizeUrl model_URL ''HTTP://Docs.Example.com:8080/a/?z=1&b=2#top''
     = Inr ''http://docs.example.com:8080/a/?b=2&z=1''"
    unfolding c n .
  ultimately show ?thesis using p by simp
qed

text \<open>
  Claim C10. For every URL class that meets the laws of the Standard named by
  \<open>whatwg_laws\<close> and every URL \<open>u\<close> that \<open>normalizeUrl\<close> accepts, normalising the result
  again gives the same result: \<open>normalizeUrl\<close> is idempotent.
\<close>

theorem normalizeUrl_idempotence:
  "whatwg_laws W \<Longrightarrow> normalizeUrl W u = Inr n \<Longrightarrow> normalizeUrl W n = Inr n"
  by (rule normalizeUrl_idempotent_on)

theorem normalizeUrl_idempotence_witness:
  "whatwg_laws model_URL
   \<and> normalizeUrl model_URL ''HTTPS://Example.COM:443/path?b=2&a=1#frag''
        = Inr ''https://example.com/path?a=1&b=2''
   \<and> normalizeUrl model_URL ''https://example.com/path?a=1&b=2''
        = Inr ''https://example.com/path?a=1&b=2''
   \<and> normalizeUrl model_URL ''https://example.com/'' = Inr ''https://example.com''
   \<and> normalizeUrl model_URL ''https://example.com'' = Inr ''https://example.com''"
proof -
  have a: "normalizeUrl model_URL ''HTTPS://Example.COM:443/path?b=2&a=1#frag''
             = Inr ''https://example.com/path?a=1&b=2''"
    by code_simp
  have b: "normalizeUrl model_URL ''https://example.com/'' = Inr ''https://example.com''"
    by code_simp
  from normalizeUrl_idempotence [OF model_laws a] normalizeUrl_idempotence [OF model_laws b]
    a b model_laws
  show ?thesis by simp
qed

section \<open>Link filtering\<close>

lemma array_filter_kept:
  "array_filter f xs = Inr kept \<Longrightarrow> x \<in> set kept \<Longrightarrow> f x = Inr True \<and> x \<in> set xs"
proof (induction xs arbitrary: kept)
  case Nil
  then show ?case by simp
next
  case (Cons y ys)
  from Cons.prems(1) obtain keep where fy: "f y = Inr keep"
    by (cases "f y") simp_all
  from Cons.prems(1) fy obtain rest where r: "array_filter f ys = Inr rest"
    by (cases "array_filter f ys") simp_all
  from Cons.prems(1) fy r have k: "kept = (if keep then y # rest else rest)" by simp
  show ?case
  proof (cases "x \<in> set rest")
    case True
    with Cons.IH [OF r] show ?thesis by simp
  next
    case False
    with k Cons.prems(2) have "keep" "x = y" by (auto split: if_splits)
    with fy show ?thesis by simp
  qed
qed

lemma array_filter_sublist:
  "array_filter f xs = Inr kept \<Longrightarrow> kept = filter (\<lambda>x. f x = Inr True) xs"
proof (induction xs arbitrary: kept)
  case Nil
  then show ?case by simp
next
  case (Cons y ys)
  from Cons.prems(1) obtain keep where fy: "f y = Inr keep"
    by (cases "f y") simp_all
  from Cons.prems(1) fy obtain rest where r: "array_filter f ys = Inr rest"
    by (cases "array_filter f ys") simp_all
  from Cons.prems(1) fy r have k: "kept = (if keep then y # rest else rest)" by simp
  with Cons.IH [OF r] fy show ?case by simp
qed

lemma array_filter_total:
  "(\<And>x. x \<in> set xs \<Longrightarrow> \<exists>b. f x = Inr b) \<Longrightarrow> \<exists>kept. array_filter f xs = Inr kept"
proof (induction xs)
  case Nil
  then show ?case by simp
next
  case (Cons y ys)
  from Cons.prems obtain b where "f y = Inr b" by auto
  moreover from Cons have "\<exists>kept. array_filter f ys = Inr kept" by simp
  ultimately show ?case by auto
qed

lemma keep_link_excluded:
  assumes "pattern \<in> set (entries (excludePatterns options))"
      and "matchesPattern (link_url link) pattern"
  shows "keep_link W options link \<noteq> Inr True"
proof -
  from assms(1) have h: "has_entries (excludePatterns options)"
    by (cases "excludePatterns options") (auto simp: has_entries_def entries_def)
  from assms have m: "list_ex (\<lambda>pattern. matchesPattern (link_url link) pattern)
                        (entries (excludePatterns options))"
    by (auto simp: list_ex_iff)
  show ?thesis
    unfolding keep_link_def using h m
    by (auto split: sum.splits if_splits)
qed

lemma keep_link_no_domains:
  "\<not> has_entries (allowedDomains options) \<Longrightarrow> \<exists>b. keep_link W options link = Inr b"
  by (auto simp: keep_link_def)

lemma keep_link_parsed:
  "new_URL W (link_url link) \<noteq> None \<Longrightarrow> \<exists>b. keep_link W options link = Inr b"
  by (auto simp: keep_link_def extractDomain_def split: option.splits)

lemma filterLinks_total:
  "(\<And>link. link \<in> set links \<Longrightarrow> new_URL W (link_url link) \<noteq> None)
   \<Longrightarrow> \<exists>kept. filterLinks W links baseDomain options = Inr kept"
  unfolding filterLinks_def by (rule array_filter_total) (simp add: keep_link_parsed)

lemma filterLinks_subset:
  "filterLinks W links baseDomain options = Inr kept \<Longrightarrow> set kept \<subseteq> set links"
  unfolding filterLinks_def by (auto dest: array_filter_kept)

lemma matches_examples:
  "matchesPattern ''https://example.com/blog/admin/x'' ''*/admin/*''"
  "matchesPattern ''https://example.com/blog/admin/x'' ''*/blog/*''"
  "\<not> matchesPattern ''https://example.com/blog/post'' ''*/admin/*''"
  "matchesPattern ''https://example.com/blog/post'' ''*/blog/*''"
  "matchesPattern ''https://Example.com/ADMIN/x'' ''*/admin/*''"
  by code_simp+

text \<open>
  Claim C7. Whatever the list of links, the base domain and the options: when
  \<^verbatim>\<open>filterLinks\<close> returns, no link it keeps has a URL matching one of the exclude patterns,
  and nothing about the include patterns is assumed, so a link matching both an include
  and an exclude pattern is dropped. The result is the sublist of the links the callback
  accepts, and with no allowed domains the call always returns.
\<close>

theorem filterLinks_exclude_wins:
  "(filterLinks W links baseDomain options = Inr kept
      \<and> excludePatterns options = Some patterns \<and> pattern \<in> set patterns
      \<and> matchesPattern (link_url link) pattern
    \<longrightarrow> link \<notin> set kept)
   \<and> (filterLinks W links baseDomain options = Inr kept \<longrightarrow> set kept \<subseteq> set links)
   \<and> (\<not> has_entries (allowedDomains options)
        \<longrightarrow> (\<exists>kept'. filterLinks W links baseDomain options = Inr kept'))"
proof (intro conjI impI)
  assume a: "filterLinks W links baseDomain options = Inr kept
      \<and> excludePatterns options = Some patterns \<and> pattern \<in> set patterns
      \<and> matchesPattern (link_url link) pattern"
  then have "pattern \<in> set (entries (excludePatterns options))" by (simp add: entries_def)
  with a have "keep_link W options link \<noteq> Inr True" by (simp add: keep_link_excluded)
  with a show "link \<notin> set kept"
    unfolding filterLinks_def by (auto dest: array_filter_kept)
next
  assume "filterLinks W links baseDomain options = Inr kept"
  then show "set kept \<subseteq> set links" by (rule filterLinks_subset)
next
  assume "\<not> has_entries (allowedDomains options)"
  then show "\<exists>kept'. filterLinks W links baseDomain options = Inr kept'"
    unfolding filterLinks_def by (intro array_filter_total keep_link_no_domains)
qed

theorem filterLinks_exclude_wins_witness:
  "matchesPattern ''https://example.com/blog/admin/x'' ''*/blog/*''
   \<and> matchesPattern ''https://example.com/blog/admin/x'' ''*/admin/*''
   \<and> filterLinks model_URL
        [\<lparr>link_text = ''Panel'', link_url = ''https://example.com/blog/admin/x'', isInternal = True\<rparr>,
         \<lparr>link_text = ''Post'', link_url = ''https://example.com/blog/post'', isInternal = True\<rparr>]
        ''example.com''
        \<lparr>allowedDomains = None, excludePatterns = Some [''*/admin/*''],
         includePatterns = Some [''*/blog/*''], filter_mode = None\<rparr>
       = Inr [\<lparr>link_text = ''Post'', link_url = ''https://example.com/blog/post'', isInternal = True\<rparr>]
   \<and> \<lparr>link_text = ''Panel'', link_url = ''https://example.com/blog/admin/x'', isInternal = True\<rparr>
       \<notin> set [\<lparr>link_text = ''Post'', link_url = ''https://example.com/blog/post'', isInternal = True\<rparr>]"
  using filterLinks_exclude_wins
    [of model_URL "[\<lparr>link_text = ''Panel'', link_url = ''https://example.com/blog/admin/x'', isInternal = True\<rparr>,
         \<lparr>link_text = ''Post'', link_url = ''https://example.com/blog/post'', isInternal = True\<rparr>]"
        "''example.com''"
        "\<lparr>allowedDomains = None, excludePatterns = Some [''*/admin/*''],
         includePatterns = Some [''*/blog/*''], filter_mode = None\<rparr>"
        "[\<lparr>link_text = ''Post'', link_url = ''https://example.com/blog/post'', isInternal = True\<rparr>]"
        "[''*/admin/*'']" "''*/admin/*''"
        "\<lparr>link_text = ''Panel'', link_url = ''https://example.com/blog/admin/x'', isInternal = True\<rparr>"]
  by (simp add: matches_examples filterLinks_def keep_link_def has_entries_def entries_def)

section \<open>The crawl engine\<close>

lemma set_last_links_found_snoc:
  "set_last_links_found n (ps @ [p]) = ps @ [p\<lparr>links_found := n\<rparr>]"
  by (simp add: set_last_links_found_def)

lemma iteration_Continue:
  assumes "iteration W env b sd lfo entry st = Continue st'"
  shows "(q_url entry \<in> visited st \<and> st' = st)
    \<or> (q_url entry \<notin> visited st
        \<and> visited st' = insert (q_url entry) (visited st)
        \<and> maxDepthReached st' = max (maxDepthReached st) (q_depth entry)
        \<and> stoppedReason st' = stoppedReason st
        \<and> ((\<exists>e. extractPage env (q_url entry) = Inl e)
              \<and> acc_pages st' = acc_pages st \<and> totalTokens st' = totalTokens st
              \<and> queue st' = queue st
            \<or> (\<exists>pageResult n new.
                  extractPage env (q_url entry) = Inr pageResult
                  \<and> totalTokens st + estimateTokens (pr_content pageResult) < b
                  \<and> totalTokens st' = totalTokens st + estimateTokens (pr_content pageResult)
                  \<and> acc_pages st' = acc_pages st @
                       [\<lparr>page_url = q_url entry, page_title = pr_title pageResult,
                         page_content = pr_content pageResult, page_depth = q_depth entry,
                         links_found = n, tokens = estimateTokens (pr_content pageResult)\<rparr>]
                  \<and> queue st' = queue st @
                       map (\<lambda>link. \<lparr>q_url = link_url link, q_depth = Suc (q_depth entry)\<rparr>) new
                  \<and> (new = []
                      \<or> (\<exists>html allLinks filteredLinks.
                            pr_html pageResult = Some html
                            \<and> extractLinks W env html (q_url entry) None = Inr allLinks
                            \<and> filterLinks W allLinks sd lfo = Inr filteredLinks
                            \<and> set new \<subseteq> set filteredLinks)))))"
  using assms unfolding iteration_def Let_def
  by (auto split: if_splits sum.splits option.splits simp: set_last_links_found_snoc max_def)

lemma iteration_Break:
  assumes "iteration W env b sd lfo entry st = Break st'"
  shows "q_url entry \<notin> visited st
    \<and> (\<exists>pageResult.
          extractPage env (q_url entry) = Inr pageResult
          \<and> b \<le> totalTokens st + estimateTokens (pr_content pageResult)
          \<and> totalTokens st' = totalTokens st + estimateTokens (pr_content pageResult)
          \<and> acc_pages st' = acc_pages st @
               [\<lparr>page_url = q_url entry, page_title = pr_title pageResult,
                 page_content = pr_content pageResult, page_depth = q_depth entry,
                 links_found = 0, tokens = estimateTokens (pr_content pageResult)\<rparr>])
    \<and> visited st' = insert (q_url entry) (visited st)
    \<and> maxDepthReached st' = max (maxDepthReached st) (q_depth entry)
    \<and> stoppedReason st' = token_limit
    \<and> queue st' = queue st"
  using assms unfolding iteration_def Let_def
  by (auto split: if_splits sum.splits option.splits simp: max_def)

lemma iteration_Throw:
  assumes "iteration W env b sd lfo entry st = Throw e"
  shows "\<exists>pageResult html.
           extractPage env (q_url entry) = Inr pageResult \<and> pr_html pageResult = Some html
           \<and> (extractLinks W env html (q_url entry) None = Inl e
               \<or> (\<exists>allLinks. extractLinks W env html (q_url entry) None = Inr allLinks
                     \<and> filterLinks W allLinks sd lfo = Inl e))"
  using assms unfolding iteration_def Let_def
  by (auto split: if_splits sum.splits option.splits)


lemma iteration_failed:
  assumes "q_url entry \<notin> visited st" "extractPage env (q_url entry) = Inl e"
  shows "iteration W env b sd lfo entry st =
           Continue (st\<lparr>visited := insert (q_url entry) (visited st),
                        maxDepthReached := max (maxDepthReached st) (q_depth entry)\<rparr>)"
  using assms unfolding iteration_def Let_def
  by (auto simp: max_def)

lemma iteration_visited:
  "q_url entry \<in> visited st \<Longrightarrow> iteration W env b sd lfo entry st = Continue st"
  by (simp add: iteration_def)


lemma bfs_loop_more_turns:
  "bfs_loop W env b sd lfo n st = Some r \<Longrightarrow> bfs_loop W env b sd lfo (n + k) st = Some r"
proof (induction n arbitrary: st)
  case 0
  then show ?case by simp
next
  case (Suc n)
  show ?case
  proof (cases "queue st")
    case Nil
    with Suc.prems show ?thesis by simp
  next
    case (Cons entry rest)
    show ?thesis
    proof (cases "iteration W env b sd lfo entry (st\<lparr>queue := rest\<rparr>)")
      case (Continue s')
      with Suc.prems Cons have "bfs_loop W env b sd lfo n s' = Some r" by simp
      then have "bfs_loop W env b sd lfo (n + k) s' = Some r" by (rule Suc.IH)
      with Cons Continue show ?thesis by simp
    next
      case (Break s')
      with Suc.prems Cons show ?thesis by simp
    next
      case (Throw e)
      with Suc.prems Cons show ?thesis by simp
    qed
  qed
qed

lemma bfs_loop_at_least:
  "bfs_loop W env b sd lfo n st = Some r \<Longrightarrow> n \<le> m \<Longrightarrow> bfs_loop W env b sd lfo m st = Some r"
  using bfs_loop_more_turns [of W env b sd lfo n st r "m - n"] by simp

lemma tokens_sum_snoc: "tokens_sum (ps @ [p]) = tokens_sum ps + tokens p"
  by (simp add: tokens_sum_def)





lemma max_depth_Max: "max_depth ps = Max (set (0 # map page_depth ps))"
  by (simp only: max_depth_def Max.set_eq_fold)

lemma max_depth_Nil: "max_depth [] = 0"
  by (simp add: max_depth_def)

lemma max_depth_ge: "p \<in> set ps \<Longrightarrow> page_depth p \<le> max_depth ps"
  unfolding max_depth_Max by (rule Max_ge) auto

lemma max_depth_attained: "ps \<noteq> [] \<Longrightarrow> \<exists>p\<in>set ps. page_depth p = max_depth ps"
proof -
  assume ne: "ps \<noteq> []"
  have "Max (set (0 # map page_depth ps)) \<in> set (0 # map page_depth ps)"
    by (rule Max_in) auto
  then have "max_depth ps = 0 \<or> (\<exists>p\<in>set ps. page_depth p = max_depth ps)"
    unfolding max_depth_Max by auto
  moreover from ne obtain q where q: "q \<in> set ps" by (cases ps) auto
  moreover from q have "page_depth q \<le> max_depth ps" by (rule max_depth_ge)
  ultimately show ?thesis by (metis le_zero_eq)
qed











lemma build_result_simps:
  "pages (build_result st) = acc_pages st"
  "total_pages (summary (build_result st)) = length (acc_pages st)"
  "total_tokens (summary (build_result st)) = totalTokens st"
  "max_depth_reached (summary (build_result st)) = maxDepthReached st"
  "stopped_reason (summary (build_result st)) = final_reason st"
  by (simp_all add: build_result_def)

lemma bfs_loop_Nil: "queue st = [] \<Longrightarrow> bfs_loop W env b sd lfo (Suc n) st = Some (Inr st)"
  by simp

lemma bfs_loop_step:
  "queue st = entry # rest
   \<Longrightarrow> iteration W env b sd lfo entry (st\<lparr>queue := rest\<rparr>) = Continue s'
   \<Longrightarrow> bfs_loop W env b sd lfo (Suc n) st = bfs_loop W env b sd lfo n s'"
  by simp

text \<open>
  The loop ends when only finitely many URLs can be fetched: a turn either shortens the
  queue and fetches nothing, or fetches one more of these URLs.
\<close>

lemma bfs_loop_terminates_aux:
  assumes fin: "finite S" and S: "\<forall>url p. extractPage env url = Inr p \<longrightarrow> url \<in> S"
      and outer: "\<And>s. card (S - visited s) < k \<Longrightarrow> \<exists>n. bfs_loop W env b sd lfo n s \<noteq> None"
  shows "queue st = q \<Longrightarrow> card (S - visited st) = k \<Longrightarrow> \<exists>n. bfs_loop W env b sd lfo n st \<noteq> None"
proof (induction q arbitrary: st)
  case Nil
  then have "bfs_loop W env b sd lfo (Suc 0) st = Some (Inr st)" by simp
  then show ?case by (metis option.distinct(1))
next
  case (Cons entry rest)
  let ?st = "st\<lparr>queue := rest\<rparr>"
  show ?case
  proof (cases "iteration W env b sd lfo entry ?st")
    case (Continue s')
    have "\<exists>n. bfs_loop W env b sd lfo n s' \<noteq> None"
    proof (cases "q_url entry \<in> visited st")
      case True
      with Continue have "s' = ?st" by (simp add: iteration_visited)
      then have "queue s' = rest" "card (S - visited s') = k" using Cons.prems by simp_all
      then show ?thesis by (rule Cons.IH)
    next
      case False
      from iteration_Continue [OF Continue] False
      have v: "visited s' = insert (q_url entry) (visited st)"
        and c: "(\<exists>e. extractPage env (q_url entry) = Inl e) \<and> queue s' = rest
                \<or> (\<exists>p. extractPage env (q_url entry) = Inr p)"
        by auto
      show ?thesis
      proof (cases "q_url entry \<in> S")
        case True
        with False fin have "card (S - insert (q_url entry) (visited st)) < card (S - visited st)"
          by (intro psubset_card_mono) auto
        with v Cons.prems have "card (S - visited s') < k" by simp
        then show ?thesis by (rule outer)
      next
        case notin: False
        with S c have "queue s' = rest" by auto
        moreover from notin v have "S - visited s' = S - visited st" by auto
        with Cons.prems have "card (S - visited s') = k" by simp
        ultimately show ?thesis by (rule Cons.IH)
      qed
    qed
    then obtain n where "bfs_loop W env b sd lfo n s' \<noteq> None" by blast
    with Cons.prems(1) Continue have "bfs_loop W env b sd lfo (Suc n) st \<noteq> None" by simp
    then show ?thesis by blast
  next
    case (Break s')
    with Cons.prems(1) have "bfs_loop W env b sd lfo (Suc 0) st \<noteq> None" by simp
    then show ?thesis by blast
  next
    case (Throw e)
    with Cons.prems(1) have "bfs_loop W env b sd lfo (Suc 0) st \<noteq> None" by simp
    then show ?thesis by blast
  qed
qed

lemma bfs_loop_terminates:
  assumes fin: "finite S" and S: "\<forall>url p. extractPage env url = Inr p \<longrightarrow> url \<in> S"
  shows "\<exists>n. bfs_loop W env b sd lfo n st \<noteq> None"
proof (induction "card (S - visited st)" arbitrary: st rule: less_induct)
  case less
  show ?case
    by (rule bfs_loop_terminates_aux [OF fin S, where k = "card (S - visited st)" and q = "queue st"])
       (use less in auto)
qed

text \<open>A queue of URLs that are visited already or cannot be fetched is emptied, and nothing else changes.\<close>

lemma bfs_loop_drain:
  "queue st = q
   \<Longrightarrow> \<forall>x\<in>set q. q_url x \<in> visited st \<or> (\<exists>e. extractPage env (q_url x) = Inl e)
   \<Longrightarrow> \<exists>st'. bfs_loop W env b sd lfo (Suc (length q + n)) st = Some (Inr st')
            \<and> acc_pages st' = acc_pages st \<and> totalTokens st' = totalTokens st
            \<and> stoppedReason st' = stoppedReason st \<and> queue st' = []
            \<and> visited st \<subseteq> visited st' \<and> finite (visited st' - visited st)
            \<and> maxDepthReached st \<le> maxDepthReached st'"
proof (induction q arbitrary: st)
  case Nil
  then show ?case by simp
next
  case (Cons entry rest)
  let ?st = "st\<lparr>queue := rest\<rparr>"
  from Cons.prems(2) have e: "q_url entry \<in> visited st \<or> (\<exists>e. extractPage env (q_url entry) = Inl e)"
    and r: "\<forall>x\<in>set rest. q_url x \<in> visited st \<or> (\<exists>e. extractPage env (q_url x) = Inl e)"
    by simp_all
  obtain s' where it: "iteration W env b sd lfo entry ?st = Continue s'"
    and q': "queue s' = rest" and v: "visited st \<subseteq> visited s'" "finite (visited s' - visited st)"
    and same: "acc_pages s' = acc_pages st" "totalTokens s' = totalTokens st"
              "stoppedReason s' = stoppedReason st" "maxDepthReached st \<le> maxDepthReached s'"
  proof (cases "q_url entry \<in> visited st")
    case True
    then have "iteration W env b sd lfo entry ?st = Continue ?st" by (simp add: iteration_visited)
    then show ?thesis by (rule that) simp_all
  next
    case False
    with e obtain err where err: "extractPage env (q_url entry) = Inl err" by blast
    from False have nv: "q_url entry \<notin> visited ?st" by simp
    let ?s = "?st\<lparr>visited := insert (q_url entry) (visited ?st),
                    maxDepthReached := max (maxDepthReached ?st) (q_depth entry)\<rparr>"
    have "iteration W env b sd lfo entry ?st = Continue ?s"
      by (rule iteration_failed [OF nv err])
    then show ?thesis
    proof (rule that)
      have "visited ?s - visited st \<subseteq> {q_url entry}" by auto
      then show "finite (visited ?s - visited st)" by (rule finite_subset) simp
    qed auto
  qed
  from r v have "\<forall>x\<in>set rest. q_url x \<in> visited s' \<or> (\<exists>e. extractPage env (q_url x) = Inl e)"
    by auto
  from Cons.IH [OF q' this] obtain st' where
    l: "bfs_loop W env b sd lfo (Suc (length rest + n)) s' = Some (Inr st')"
    and p: "acc_pages st' = acc_pages s'" "totalTokens st' = totalTokens s'"
           "stoppedReason st' = stoppedReason s'" "queue st' = []"
           "visited s' \<subseteq> visited st'" "finite (visited st' - visited s')"
           "maxDepthReached s' \<le> maxDepthReached st'" by blast
  from Cons.prems(1) it l have "bfs_loop W env b sd lfo (Suc (length (entry # rest) + n)) st = Some (Inr st')"
    by simp
  moreover have "finite (visited st' - visited st)"
  proof (rule finite_subset)
    show "visited st' - visited st \<subseteq> (visited st' - visited s') \<union> (visited s' - visited st)" by auto
    show "finite ((visited st' - visited s') \<union> (visited s' - visited st))" using p(6) v(2) by simp
  qed
  ultimately show ?case using p same v by auto
qed

subsection \<open>No exception leaves the loop\<close>

lemma resolveUrl_reparses:
  assumes r: "reparses W" and a: "resolveUrl W base relative = Inr absoluteUrl"
  shows "\<exists>u. new_URL W absoluteUrl = Some u"
proof -
  from a obtain u where u: "new_URL_with_base W relative base = Some u"
    and h: "absoluteUrl = url_href W u"
    by (auto simp: resolveUrl_def split: option.splits)
  from u have "u \<in> URL_objects W" by (rule URL_objects.resolved)
  with r h show ?thesis by (simp add: reparses_def)
qed

lemma anchor_step_ok:
  assumes res: "reparses W"
      and acc: "\<forall>l\<in>set (acc_links acc). new_URL W (link_url l) \<noteq> None"
  shows "\<exists>acc'. anchor_step W baseUrl baseDomain a acc = Inr acc'
               \<and> (\<forall>l\<in>set (acc_links acc'). new_URL W (link_url l) \<noteq> None)"
proof (cases "resolveUrl W baseUrl (js_trim (fst a))")
  case (Inl e)
  with acc show ?thesis by (auto simp: anchor_step_def Let_def)
next
  case (Inr absoluteUrl)
  from resolveUrl_reparses [OF res Inr] obtain n where n: "normalizeUrl W absoluteUrl = Inr n"
    using normalizeUrl_Inr [of W absoluteUrl] by blast
  show ?thesis
  proof (cases "isFetchableUrl W n")
    case False
    with Inr n acc show ?thesis by (auto simp: anchor_step_def Let_def)
  next
    case True
    then have pn: "new_URL W n \<noteq> None" using isFetchableUrl_parsed by fastforce
    then obtain d where d: "extractDomain W n = Inr d" using extractDomain_Inr [of W n] by auto
    from Inr n True pn d acc show ?thesis by (auto simp: anchor_step_def Let_def)
  qed
qed

lemma each_anchor_ok:
  assumes res: "reparses W"
  shows "\<forall>l\<in>set (acc_links acc). new_URL W (link_url l) \<noteq> None
     \<Longrightarrow> \<exists>acc'. each_anchor (anchor_step W baseUrl baseDomain) as acc = Inr acc'
               \<and> (\<forall>l\<in>set (acc_links acc'). new_URL W (link_url l) \<noteq> None)"
proof (induction as arbitrary: acc)
  case Nil
  then show ?case by simp
next
  case (Cons a as)
  from anchor_step_ok [OF res Cons.prems]
  obtain acc1 where s: "anchor_step W baseUrl baseDomain a acc = Inr acc1"
    and p: "\<forall>l\<in>set (acc_links acc1). new_URL W (link_url l) \<noteq> None" by blast
  from Cons.IH [OF p] s show ?case by simp
qed

lemma extractLinks_ok:
  assumes res: "reparses W" and base: "new_URL W baseUrl \<noteq> None"
  shows "\<exists>links. extractLinks W env html baseUrl None = Inr links
               \<and> (\<forall>l\<in>set links. new_URL W (link_url l) \<noteq> None)"
proof -
  from base obtain d where d: "extractDomain W baseUrl = Inr d" using extractDomain_Inr [of W baseUrl] by auto
  have "\<forall>l\<in>set (acc_links \<lparr>acc_seen = {}, acc_links = []\<rparr>). new_URL W (link_url l) \<noteq> None" by simp
  from each_anchor_ok [OF res this]
  obtain acc' where "each_anchor (anchor_step W baseUrl d) (anchors env html)
                       \<lparr>acc_seen = {}, acc_links = []\<rparr> = Inr acc'"
      and "\<forall>l\<in>set (acc_links acc'). new_URL W (link_url l) \<noteq> None" by blast
  with d show ?thesis by (simp add: extractLinks_def)
qed

lemma iteration_no_throw:
  assumes res: "reparses W" and u: "new_URL W (q_url entry) \<noteq> None"
  shows "iteration W env b sd lfo entry st \<noteq> Throw e"
proof
  assume "iteration W env b sd lfo entry st = Throw e"
  from iteration_Throw [OF this] obtain pageResult html where
    t: "extractLinks W env html (q_url entry) None = Inl e
        \<or> (\<exists>allLinks. extractLinks W env html (q_url entry) None = Inr allLinks
              \<and> filterLinks W allLinks sd lfo = Inl e)" by blast
  from extractLinks_ok [OF res u] obtain links where
    l: "extractLinks W env html (q_url entry) None = Inr links"
    and p: "\<forall>l\<in>set links. new_URL W (link_url l) \<noteq> None" by blast
  from p have "\<exists>kept. filterLinks W links sd lfo = Inr kept"
    by (intro filterLinks_total) simp
  with t l show False by auto
qed

lemma iteration_Continue_queue:
  assumes "iteration W env b sd lfo entry st = Continue st'"
  shows "\<forall>x\<in>set (queue st'). x \<in> set (queue st)
           \<or> (\<exists>html allLinks filteredLinks l.
                 extractLinks W env html (q_url entry) None = Inr allLinks
                 \<and> filterLinks W allLinks sd lfo = Inr filteredLinks
                 \<and> l \<in> set filteredLinks \<and> q_url x = link_url l)"
proof
  fix x assume x: "x \<in> set (queue st')"
  let ?goal = "x \<in> set (queue st)
           \<or> (\<exists>html allLinks filteredLinks l.
                 extractLinks W env html (q_url entry) None = Inr allLinks
                 \<and> filterLinks W allLinks sd lfo = Inr filteredLinks
                 \<and> l \<in> set filteredLinks \<and> q_url x = link_url l)"
  from iteration_Continue [OF assms]
  consider "st' = st" | "queue st' = queue st"
    | new where "queue st' = queue st @
                   map (\<lambda>link. \<lparr>q_url = link_url link, q_depth = Suc (q_depth entry)\<rparr>) new"
                "new = [] \<or> (\<exists>html allLinks filteredLinks.
                            extractLinks W env html (q_url entry) None = Inr allLinks
                            \<and> filterLinks W allLinks sd lfo = Inr filteredLinks
                            \<and> set new \<subseteq> set filteredLinks)"
    by blast
  then show ?goal
  proof cases
    case 1
    with x show ?thesis by simp
  next
    case 2
    with x show ?thesis by simp
  next
    case 3
    from x 3(1) have "x \<in> set (queue st) \<or> (\<exists>l\<in>set new. q_url x = link_url l)" by auto
    then show ?thesis
    proof
      assume "x \<in> set (queue st)"
      then show ?thesis by simp
    next
      assume "\<exists>l\<in>set new. q_url x = link_url l"
      then obtain l where l: "l \<in> set new" "q_url x = link_url l" by blast
      then have "new \<noteq> []" by auto
      with 3(2) obtain html allLinks filteredLinks where
        "extractLinks W env html (q_url entry) None = Inr allLinks"
        "filterLinks W allLinks sd lfo = Inr filteredLinks" "set new \<subseteq> set filteredLinks" by blast
      with l show ?thesis by blast
    qed
  qed
qed

lemma iteration_Continue_urls:
  assumes res: "reparses W" and u: "new_URL W (q_url entry) \<noteq> None"
      and it: "iteration W env b sd lfo entry st = Continue st'"
      and q: "\<forall>x\<in>set (queue st). new_URL W (q_url x) \<noteq> None"
  shows "\<forall>x\<in>set (queue st'). new_URL W (q_url x) \<noteq> None"
proof
  fix x assume "x \<in> set (queue st')"
  with iteration_Continue_queue [OF it]
  have "x \<in> set (queue st)
           \<or> (\<exists>html allLinks filteredLinks l.
                 extractLinks W env html (q_url entry) None = Inr allLinks
                 \<and> filterLinks W allLinks sd lfo = Inr filteredLinks
                 \<and> l \<in> set filteredLinks \<and> q_url x = link_url l)" by simp
  then show "new_URL W (q_url x) \<noteq> None"
  proof
    assume "x \<in> set (queue st)"
    with q show ?thesis by simp
  next
    assume "\<exists>html allLinks filteredLinks l.
                 extractLinks W env html (q_url entry) None = Inr allLinks
                 \<and> filterLinks W allLinks sd lfo = Inr filteredLinks
                 \<and> l \<in> set filteredLinks \<and> q_url x = link_url l"
    then obtain html allLinks filteredLinks l where
      a: "extractLinks W env html (q_url entry) None = Inr allLinks"
      and f: "filterLinks W allLinks sd lfo = Inr filteredLinks"
      and l: "l \<in> set filteredLinks" "q_url x = link_url l" by blast
    from extractLinks_ok [OF res u, of env html] a
    have "\<forall>l\<in>set allLinks. new_URL W (link_url l) \<noteq> None" by simp
    moreover from f have "set filteredLinks \<subseteq> set allLinks" by (rule filterLinks_subset)
    ultimately show ?thesis using l by auto
  qed
qed

lemma bfs_loop_no_throw:
  assumes res: "reparses W"
  shows "\<forall>x\<in>set (queue st). new_URL W (q_url x) \<noteq> None
         \<Longrightarrow> bfs_loop W env b sd lfo n st \<noteq> Some (Inl e)"
proof (induction n arbitrary: st)
  case 0
  then show ?case by simp
next
  case (Suc n)
  show ?case
  proof (cases "queue st")
    case Nil
    then show ?thesis by simp
  next
    case (Cons entry rest)
    with Suc.prems have u: "new_URL W (q_url entry) \<noteq> None"
      and r: "\<forall>x\<in>set (queue (st\<lparr>queue := rest\<rparr>)). new_URL W (q_url x) \<noteq> None" by simp_all
    show ?thesis
    proof (cases "iteration W env b sd lfo entry (st\<lparr>queue := rest\<rparr>)")
      case (Continue s')
      from iteration_Continue_urls [OF res u Continue r]
      have "bfs_loop W env b sd lfo n s' \<noteq> Some (Inl e)" by (rule Suc.IH)
      with Cons Continue show ?thesis by simp
    next
      case (Break s')
      with Cons show ?thesis by simp
    next
      case (Throw e')
      with iteration_no_throw [OF res u] show ?thesis by blast
    qed
  qed
qed

lemma crawl_no_throw:
  assumes laws: "whatwg_laws W" and s: "normalizeUrl W startUrl = Inr s"
  shows "crawl turns W env startUrl options \<noteq> Some (Inl e)"
proof -
  from laws have res: "reparses W" by (simp add: whatwg_laws_def)
  from normalizeUrl_reparses_on [OF laws s] have ps: "new_URL W s \<noteq> None" by auto
  then obtain d where d: "extractDomain W s = Inr d" using extractDomain_Inr [of W s] by auto
  from ps have "\<forall>x\<in>set (queue (initial_state s)). new_URL W (q_url x) \<noteq> None"
    by (simp add: initial_state_def)
  from bfs_loop_no_throw [OF res this]
  have "bfs_loop W env (budget_of env options) d (linkFilterOptions_of options) turns (initial_state s)
          \<noteq> Some (Inl e)" .
  with s d show ?thesis
    by (auto simp: crawl_def split: option.splits sum.splits)
qed

subsection \<open>The result of a crawl\<close>




lemma crawl_malformed_start:
  "normalizeUrl W startUrl = Inl e \<Longrightarrow> crawl turns W env startUrl options = Some (Inl e)"
  by (simp add: crawl_def)

lemma crawl_seed_fails:
  assumes s: "normalizeUrl W startUrl = Inr s" and d: "extractDomain W s = Inr sd"
      and f: "extractPage env s = Inl err"
  shows "crawl (Suc (Suc turns)) W env startUrl options = Some (Inr empty_result)"
proof -
  let ?e = "\<lparr>q_url = s, q_depth = 0\<rparr>"
  let ?st = "(initial_state s)\<lparr>queue := []\<rparr>"
  have "q_url ?e \<notin> visited ?st" by (simp add: initial_state_def)
  moreover have "extractPage env (q_url ?e) = Inl err" using f by simp
  ultimately have "iteration W env (budget_of env options) sd (linkFilterOptions_of options) ?e ?st =
     Continue (?st\<lparr>visited := insert (q_url ?e) (visited ?st),
                    maxDepthReached := max (maxDepthReached ?st) (q_depth ?e)\<rparr>)"
    by (rule iteration_failed)
  then show ?thesis
    using s d
    by (simp add: crawl_def initial_state_def build_result_def final_reason_def empty_result_def)
qed

lemma crawl_seed_only:
  assumes laws: "whatwg_laws W" and s: "normalizeUrl W startUrl = Inr s"
      and p: "extractPage env s = Inr pageResult"
      and others: "\<forall>url. url \<noteq> s \<longrightarrow> (\<exists>err. extractPage env url = Inl err)"
  shows "\<exists>n r k. (\<forall>m\<ge>n. crawl m W env startUrl options = Some (Inr r))
           \<and> pages r = [\<lparr>page_url = s, page_title = pr_title pageResult,
                          page_content = pr_content pageResult, page_depth = 0,
                          links_found = k, tokens = estimateTokens (pr_content pageResult)\<rparr>]"
proof -
  from laws have res: "reparses W" by (simp add: whatwg_laws_def)
  from normalizeUrl_reparses_on [OF laws s] have ps: "new_URL W s \<noteq> None" by auto
  then obtain sd where d: "extractDomain W s = Inr sd" using extractDomain_Inr [of W s] by auto
  let ?b = "budget_of env options"
  let ?lfo = "linkFilterOptions_of options"
  let ?e = "\<lparr>q_url = s, q_depth = 0\<rparr>"
  let ?st = "(initial_state s)\<lparr>queue := []\<rparr>"
  let ?page = "\<lambda>k. \<lparr>page_url = s, page_title = pr_title pageResult,
                          page_content = pr_content pageResult, page_depth = 0,
                          links_found = k, tokens = estimateTokens (pr_content pageResult)\<rparr>"
  have q0: "queue (initial_state s) = ?e # []" by (simp add: initial_state_def)
  have loop: "\<exists>n st k. (\<forall>m\<ge>n. bfs_loop W env ?b sd ?lfo m (initial_state s) = Some (Inr st))
                  \<and> acc_pages st = [?page k]"
  proof (cases "iteration W env ?b sd ?lfo ?e ?st")
    case (Throw e)
    have pe: "new_URL W (q_url ?e) \<noteq> None" using ps by simp
    from iteration_no_throw [OF res this] Throw show ?thesis by blast
  next
    case (Break st')
    from iteration_Break [OF Break] p
    have pg: "acc_pages st' = [?page 0]" by (auto simp: initial_state_def)
    have "\<And>m. m \<ge> Suc 0 \<Longrightarrow> bfs_loop W env ?b sd ?lfo m (initial_state s) = Some (Inr st')"
    proof -
      fix m :: nat assume "m \<ge> Suc 0"
      then obtain m' where "m = Suc m'" by (cases m) auto
      with q0 Break show "bfs_loop W env ?b sd ?lfo m (initial_state s) = Some (Inr st')" by simp
    qed
    with pg show ?thesis by blast
  next
    case (Continue s1)
    from iteration_Continue [OF Continue] p
    obtain k where v: "visited s1 = {s}" and pg: "acc_pages s1 = [?page k]"
      by (auto simp: initial_state_def)
    have all: "\<forall>x\<in>set (queue s1). q_url x \<in> visited s1 \<or> (\<exists>e. extractPage env (q_url x) = Inl e)"
      using v others by auto
    from bfs_loop_drain [OF refl all, of W ?b sd ?lfo 0] obtain st' where
      l: "bfs_loop W env ?b sd ?lfo (Suc (length (queue s1))) s1 = Some (Inr st')"
      and same: "acc_pages st' = acc_pages s1" by auto
    have "\<And>m. m \<ge> Suc (Suc (length (queue s1)))
             \<Longrightarrow> bfs_loop W env ?b sd ?lfo m (initial_state s) = Some (Inr st')"
    proof -
      fix m :: nat assume m: "m \<ge> Suc (Suc (length (queue s1)))"
      then obtain m' where m': "m = Suc m'" "m' \<ge> Suc (length (queue s1))" by (cases m) auto
      from bfs_loop_at_least [OF l m'(2)] have "bfs_loop W env ?b sd ?lfo m' s1 = Some (Inr st')" .
      with q0 Continue m'(1) show "bfs_loop W env ?b sd ?lfo m (initial_state s) = Some (Inr st')"
        by simp
    qed
    with same pg show ?thesis by (metis (no_types, lifting))
  qed
  then obtain n st k where
    a: "\<forall>m\<ge>n. bfs_loop W env ?b sd ?lfo m (initial_state s) = Some (Inr st)"
    and pg: "acc_pages st = [?page k]" by blast
  from a s d have "\<forall>m\<ge>n. crawl m W env startUrl options = Some (Inr (build_result st))"
    by (simp add: crawl_def)
  moreover have "pages (build_result st) = [?page k]" using pg by (simp add: build_result_simps)
  ultimately show ?thesis by blast
qed

lemma crawl_finite_web:
  assumes laws: "whatwg_laws W" and s: "normalizeUrl W startUrl = Inr s"
      and fin: "finite S" and S: "\<forall>url p. extractPage env url = Inr p \<longrightarrow> url \<in> S"
  shows "\<exists>n r. \<forall>m\<ge>n. crawl m W env startUrl options = Some (Inr r)"
proof -
  from laws have res: "reparses W" by (simp add: whatwg_laws_def)
  from normalizeUrl_reparses_on [OF laws s] have ps: "new_URL W s \<noteq> None" by auto
  then obtain sd where d: "extractDomain W s = Inr sd" using extractDomain_Inr [of W s] by auto
  let ?b = "budget_of env options"
  let ?lfo = "linkFilterOptions_of options"
  from bfs_loop_terminates [OF fin S, of W ?b sd ?lfo "initial_state s"]
  obtain n where n: "bfs_loop W env ?b sd ?lfo n (initial_state s) \<noteq> None" by blast
  from ps have "\<forall>x\<in>set (queue (initial_state s)). new_URL W (q_url x) \<noteq> None"
    by (simp add: initial_state_def)
  from bfs_loop_no_throw [OF res this, of env ?b sd ?lfo n] n
  obtain st where st: "bfs_loop W env ?b sd ?lfo n (initial_state s) = Some (Inr st)"
    by (cases "bfs_loop W env ?b sd ?lfo n (initial_state s)") (auto, metis sum.exhaust)
  have "\<forall>m\<ge>n. crawl m W env startUrl options = Some (Inr (build_result st))"
  proof (intro allI impI)
    fix m assume "m \<ge> n"
    from bfs_loop_at_least [OF st this] s d
    show "crawl m W env startUrl options = Some (Inr (build_result st))" by (simp add: crawl_def)
  qed
  then show ?thesis by blast
qed

section \<open>The claims about the crawl engine\<close>



lemma example_start:
  "normalizeUrl model_URL ''https://example.com/'' = Inr ''https://example.com''"
  "extractDomain model_URL ''https://example.com'' = Inr ''example.com''"
  "normalizeUrl model_URL ''not a url'' = Inl TypeError"
  by code_simp+



lemma site_down_run:
  "crawl 2 model_URL site_down ''https://example.com/'' None = Some (Inr empty_result)"
  by code_simp



text \<open>
  Claim C5 says that a failure to process the seed URL is a hard failure. It is not: the
  fetch of the seed is inside the same \<^verbatim>\<open>try\<close> as every other fetch, and when it fails the
  crawl returns a result with no page. On a site where every fetch fails:
\<close>

theorem crawl_seed_failure_returns:
  "crawl 2 model_URL site_down ''https://example.com/'' None = Some (Inr empty_result)"
  by (rule site_down_run)

text \<open>
  Claim C5, amended. A start URL that the URL class rejects makes \<open>crawl\<close> throw the
  \<^verbatim>\<open>TypeError\<close> of \<open>normalizeUrl\<close>. For a URL class with the laws of the Standard and a start
  URL it accepts, \<open>crawl\<close> throws nothing, whatever fetches fail. When the fetch of the seed
  fails, the result has no page and the stop reason \<open>no_more_links\<close>. When the seed is
  fetched and every other fetch fails, the crawl ends and the result has the seed page
  only. The crawl ends whenever only finitely many URLs can be fetched.
\<close>

theorem crawl_partial_failures:
  "(normalizeUrl W startUrl = Inl e \<longrightarrow> crawl turns W env startUrl options = Some (Inl e))
   \<and> (whatwg_laws W \<and> normalizeUrl W startUrl = Inr s \<longrightarrow>
        crawl turns W env startUrl options \<noteq> Some (Inl e'))
   \<and> (normalizeUrl W startUrl = Inr s \<and> extractDomain W s = Inr d
       \<and> extractPage env s = Inl err \<longrightarrow>
        crawl (Suc (Suc turns)) W env startUrl options = Some (Inr empty_result))
   \<and> (whatwg_laws W \<and> normalizeUrl W startUrl = Inr s
       \<and> extractPage env s = Inr pageResult
       \<and> (\<forall>url. url \<noteq> s \<longrightarrow> (\<exists>err. extractPage env url = Inl err)) \<longrightarrow>
        (\<exists>n r k. (\<forall>m\<ge>n. crawl m W env startUrl options = Some (Inr r))
           \<and> pages r = [\<lparr>page_url = s, page_title = pr_title pageResult,
                          page_content = pr_content pageResult, page_depth = 0,
                          links_found = k, tokens = estimateTokens (pr_content pageResult)\<rparr>]))
   \<and> (whatwg_laws W \<and> normalizeUrl W startUrl = Inr s
       \<and> finite S \<and> (\<forall>url p. extractPage env url = Inr p \<longrightarrow> url \<in> S) \<longrightarrow>
        (\<exists>n r. \<forall>m\<ge>n. crawl m W env startUrl options = Some (Inr r)))"
proof (intro conjI impI)
  assume "normalizeUrl W startUrl = Inl e"
  then show "crawl turns W env startUrl options = Some (Inl e)" by (rule crawl_malformed_start)
next
  assume "whatwg_laws W \<and> normalizeUrl W startUrl = Inr s"
  then show "crawl turns W env startUrl options \<noteq> Some (Inl e')"
    by (intro crawl_no_throw [where s = s]) simp_all
next
  assume "normalizeUrl W startUrl = Inr s \<and> extractDomain W s = Inr d
       \<and> extractPage env s = Inl err"
  then show "crawl (Suc (Suc turns)) W env startUrl options = Some (Inr empty_result)"
    by (intro crawl_seed_fails [where s = s and sd = d and err = err]) simp_all
next
  assume "whatwg_laws W \<and> normalizeUrl W startUrl = Inr s
       \<and> extractPage env s = Inr pageResult
       \<and> (\<forall>url. url \<noteq> s \<longrightarrow> (\<exists>err. extractPage env url = Inl err))"
  then show "\<exists>n r k. (\<forall>m\<ge>n. crawl m W env startUrl options = Some (Inr r))
           \<and> pages r = [\<lparr>page_url = s, page_title = pr_title pageResult,
                          page_content = pr_content pageResult, page_depth = 0,
                          links_found = k, tokens = estimateTokens (pr_content pageResult)\<rparr>]"
    by (intro crawl_seed_only) simp_all
next
  assume "whatwg_laws W \<and> normalizeUrl W startUrl = Inr s
       \<and> finite S \<and> (\<forall>url p. extractPage env url = Inr p \<longrightarrow> url \<in> S)"
  then show "\<exists>n r. \<forall>m\<ge>n. crawl m W env startUrl options = Some (Inr r)"
    by (intro crawl_finite_web [where s = s and S = S]) simp_all
qed

theorem crawl_partial_failures_witness:
  "crawl 1 model_URL site_down ''not a url'' None = Some (Inl TypeError)
   \<and> crawl 3 model_URL site_dead_link ''https://example.com/'' None \<noteq> Some (Inl TypeError)
   \<and> crawl 2 model_URL site_down ''https://example.com/'' None = Some (Inr empty_result)
   \<and> (\<exists>n r k. (\<forall>m\<ge>n. crawl m model_URL site_dead_link ''https://example.com/'' None = Some (Inr r))
          \<and> pages r = [\<lparr>page_url = ''https://example.com'', page_title = [],
                         page_content = [0x48, 0x65, 0x6C, 0x6C, 0x6F], page_depth = 0,
                         links_found = k, tokens = 2\<rparr>])
   \<and> (\<exists>n r. \<forall>m\<ge>n. crawl m model_URL site_dead_link ''https://example.com/'' None = Some (Inr r))"
proof -
  let ?pr = "\<lparr>pr_title = [], pr_content = [0x48, 0x65, 0x6C, 0x6C, 0x6F],
              pr_html = Some ''<a href=/gone>gone</a>''\<rparr>"
  have seed: "extractPage site_dead_link ''https://example.com'' = Inr ?pr"
    by (simp add: site_dead_link_def)
  have others: "\<forall>url. url \<noteq> ''https://example.com''
                   \<longrightarrow> (\<exists>err. extractPage site_dead_link url = Inl err)"
    by (simp add: site_dead_link_def)
  have down: "extractPage site_down ''https://example.com'' = Inl (FetchError ''HTTP 404'')"
    by (simp add: site_down_def)
  have tk: "estimateTokens [0x48, 0x65, 0x6C, 0x6C, 0x6F] = 2" by code_simp
  note malformed = crawl_partial_failures [THEN conjunct1, rule_format]
  note no_throw = crawl_partial_failures [THEN conjunct2, THEN conjunct1, rule_format]
  note seed_fails = crawl_partial_failures
                      [THEN conjunct2, THEN conjunct2, THEN conjunct1, rule_format]
  note seed_only = crawl_partial_failures
                      [THEN conjunct2, THEN conjunct2, THEN conjunct2, THEN conjunct1, rule_format]
  note ends = crawl_partial_failures
                      [THEN conjunct2, THEN conjunct2, THEN conjunct2, THEN conjunct2, rule_format]
  have w1: "crawl 1 model_URL site_down ''not a url'' None = Some (Inl TypeError)"
    by (rule malformed) (rule example_start(3))
  have w2: "crawl 3 model_URL site_dead_link ''https://example.com/'' None \<noteq> Some (Inl TypeError)"
    by (rule no_throw [where s = "''https://example.com''"]) (simp add: model_laws example_start)
  have "crawl (Suc (Suc 0)) model_URL site_down ''https://example.com/'' None = Some (Inr empty_result)"
    by (rule seed_fails [where s = "''https://example.com''" and d = "''example.com''"
                          and err = "FetchError ''HTTP 404''"])
       (simp add: example_start down)
  then have w3: "crawl 2 model_URL site_down ''https://example.com/'' None = Some (Inr empty_result)"
    by (simp add: numeral_2_eq_2)
  have "\<exists>n r k. (\<forall>m\<ge>n. crawl m model_URL site_dead_link ''https://example.com/'' None = Some (Inr r))
          \<and> pages r = [\<lparr>page_url = ''https://example.com'', page_title = pr_title ?pr,
                         page_content = pr_content ?pr, page_depth = 0,
                         links_found = k, tokens = estimateTokens (pr_content ?pr)\<rparr>]"
    by (rule seed_only) (simp add: model_laws example_start seed others)
  then have w4: "\<exists>n r k. (\<forall>m\<ge>n. crawl m model_URL site_dead_link ''https://example.com/'' None = Some (Inr r))
          \<and> pages r = [\<lparr>page_url = ''https://example.com'', page_title = [],
                         page_content = [0x48, 0x65, 0x6C, 0x6C, 0x6F], page_depth = 0,
                         links_found = k, tokens = 2\<rparr>]"
    by (simp add: tk)
  have w5: "\<exists>n r. \<forall>m\<ge>n. crawl m model_URL site_dead_link ''https://example.com/'' None = Some (Inr r)"
    by (rule ends [where s = "''https://example.com''" and S = "{''https://example.com''}"])
       (auto simp: model_laws example_start site_dead_link_def split: if_splits)
  from w1 w2 w3 w4 w5 show ?thesis by blast
qed




end
